theory Spec2Isabelle
  imports Main "HOL-Library.Word" "HOL-Library.Product_Lexorder"
begin

section \<open>Shared utilities (shared.ts)\<close>

text \<open>
  A \<open>Uint8Array\<close> is a list of bytes. Every \<open>throw\<close> of the modelled code, and every
  rejection of a platform call it awaits, is a value of \<open>error\<close>.
\<close>

type_synonym byte = "8 word"

datatype error =
    RangeError
  | TypeError
  | InvalidWikiType string
  | FetchFailed
  | UnexpectedBodyChunkType
  | StreamError
  | NoRows
  | WrongTenant string string

text \<open>
  \<open>bb.subarray(b, e)\<close> for non-negative integers: the view of the bytes from \<open>b\<close> up to
  (not including) \<open>e\<close>, both clamped to the length, empty when \<open>e \<le> b\<close>.
\<close>

definition subarray :: "byte list \<Rightarrow> nat \<Rightarrow> nat \<Rightarrow> byte list" where
  "subarray bb b e = take (e - b) (drop b bb)"

text \<open>
  \<open>Math.ceil(a / b)\<close> on non-negative integers with \<open>b > 0\<close>.
\<close>

definition ceil_div :: "nat \<Rightarrow> nat \<Rightarrow> nat" where
  "ceil_div a b = (a + b - 1) div b"

text \<open>
  The \<open>for\<close> loop of \<open>chunkify\<close>; the last argument counts the iterations that are left
  (\<open>chunks.length - i\<close>).
\<close>

fun chunkify_loop :: "byte list \<Rightarrow> nat \<Rightarrow> nat \<Rightarrow> nat \<Rightarrow> byte list list" where
  "chunkify_loop bb chunkSz readidx 0 = []"
| "chunkify_loop bb chunkSz readidx (Suc n) =
     (let e = min (readidx + chunkSz) (length bb)
      in subarray bb readidx e # chunkify_loop bb chunkSz e n)"

text \<open>
  \<open>chunkify(bb, chunkSz)\<close>. With \<open>chunkSz = 0\<close> the quotient is \<open>Infinity\<close> or \<open>NaN\<close> and
  \<open>new Array(...)\<close> throws a \<open>RangeError\<close>.
\<close>

definition chunkify :: "byte list \<Rightarrow> nat \<Rightarrow> error + byte list list" where
  "chunkify bb chunkSz =
     (if chunkSz = 0 then Inl RangeError
      else Inr (chunkify_loop bb chunkSz 0 (ceil_div (length bb) chunkSz)))"

text \<open>
  \<open>arr.set(src, writeidx)\<close>: overwrite \<open>arr\<close> from position \<open>writeidx\<close> with \<open>src\<close>
  (\<open>mergeArrayBuffers\<close> only calls it in range).
\<close>

definition set_at :: "byte list \<Rightarrow> byte list \<Rightarrow> nat \<Rightarrow> byte list" where
  "set_at arr src writeidx = take writeidx arr @ src @ drop (writeidx + length src) arr"

fun merge_loop :: "byte list \<Rightarrow> nat \<Rightarrow> byte list list \<Rightarrow> byte list" where
  "merge_loop arr writeidx [] = arr"
| "merge_loop arr writeidx (c # cs) = merge_loop (set_at arr c writeidx) (writeidx + length c) cs"

definition mergeArrayBuffers :: "byte list list \<Rightarrow> byte list" where
  "mergeArrayBuffers chunks =
     merge_loop (replicate (foldl (\<lambda>acc b. acc + length b) 0 chunks) 0) 0 chunks"

section \<open>The document actor (WikiDO in durable-objects.ts)\<close>

definition RETAINED_VERSIONS_NUM :: nat where
  "RETAINED_VERSIONS_NUM = 10"

definition CHUNK_SIZE_MAX :: nat where
  "CHUNK_SIZE_MAX = 1500000"

definition BYTE_SIZE_ATONCE_THRESHOLD :: nat where
  "BYTE_SIZE_ATONCE_THRESHOLD = 5000000"

subsection \<open>Tables\<close>

text \<open>
  A row of \<open>wiki_versions\<close>; \<open>chunksTotal\<close> is \<open>NULL\<close> (\<open>None\<close>) in the rows the streaming
  path writes before its terminal row. The table is the list of its rows in insertion
  order; the primary key is \<open>(wikiId, tsMs, chunkIdx)\<close>.
\<close>

record version_row =
  v_wikiId :: string
  v_tsMs :: int
  v_src :: "byte list"
  v_chunkIdx :: nat
  v_chunksTotal :: "nat option"

record info_row =
  i_wikiId :: string
  i_tenantId :: string
  i_name :: string
  i_wikiType :: string

definition same_key :: "version_row \<Rightarrow> version_row \<Rightarrow> bool" where
  "same_key r r' \<longleftrightarrow>
     v_wikiId r = v_wikiId r' \<and> v_tsMs r = v_tsMs r' \<and> v_chunkIdx r = v_chunkIdx r'"

text \<open>\<open>INSERT OR REPLACE INTO wiki_versions\<close>.\<close>

definition insert_or_replace :: "version_row \<Rightarrow> version_row list \<Rightarrow> version_row list" where
  "insert_or_replace r tbl = filter (\<lambda>x. \<not> same_key x r) tbl @ [r]"

text \<open>\<open>INSERT OR REPLACE INTO wiki_info\<close> (primary key \<open>wikiId\<close>).\<close>

definition insert_or_replace_info :: "info_row \<Rightarrow> info_row list \<Rightarrow> info_row list" where
  "insert_or_replace_info r tbl = filter (\<lambda>x. i_wikiId x \<noteq> i_wikiId r) tbl @ [r]"

text \<open>\<open>WHERE wikiId = ? AND chunkIdx = chunksTotal\<close> (false on a \<open>NULL\<close> total).\<close>

definition is_complete :: "string \<Rightarrow> version_row \<Rightarrow> bool" where
  "is_complete w r \<longleftrightarrow> v_wikiId r = w \<and> v_chunksTotal r = Some (v_chunkIdx r)"

definition complete_rows :: "string \<Rightarrow> version_row list \<Rightarrow> version_row list" where
  "complete_rows w tbl = filter (is_complete w) tbl"

text \<open>
  \<open>SELECT tsMs, chunksTotal ... WHERE wikiId = ? AND chunkIdx = chunksTotal
  ORDER BY tsMs DESC LIMIT 1\<close>, read with \<open>.one()\<close>, which throws on an empty result.
  SQLite answers it by walking the index of the primary key \<open>(wikiId, tsMs, chunkIdx)\<close>
  backwards: among the complete rows of the latest timestamp it yields the one with the
  greatest \<open>chunkIdx\<close>. The rows are sorted by the pair \<open>(tsMs, chunkIdx)\<close>, in
  lexicographic order.
\<close>

definition chunksInfo :: "string \<Rightarrow> version_row list \<Rightarrow> error + version_row" where
  "chunksInfo w tbl =
     (case rev (sort_key (\<lambda>r. (v_tsMs r, v_chunkIdx r)) (complete_rows w tbl)) of
        [] \<Rightarrow> Inl NoRows
      | r # _ \<Rightarrow> Inr r)"

text \<open>\<open>SELECT src ... WHERE wikiId = ? AND tsMs = ? ORDER BY chunkIdx ASC\<close>.\<close>

definition chunksCursor :: "string \<Rightarrow> int \<Rightarrow> version_row list \<Rightarrow> byte list list" where
  "chunksCursor w ts tbl =
     map v_src (sort_key v_chunkIdx (filter (\<lambda>r. v_wikiId r = w \<and> v_tsMs r = ts) tbl))"

text \<open>
  \<open>SELECT DISTINCT tsMs ... WHERE wikiId = ? AND chunkIdx = chunksTotal
  ORDER BY tsMs DESC LIMIT ?\<close>.
\<close>

definition complete_tss :: "string \<Rightarrow> nat \<Rightarrow> version_row list \<Rightarrow> int list" where
  "complete_tss w lim tbl = take lim (rev (sort (remdups (map v_tsMs (complete_rows w tbl)))))"

subsection \<open>State and responses\<close>

record WikiDO =
  fileSrc :: "byte list option"
  wikiId :: string
  tenantId :: string
  wiki_info :: "info_row list"
  wiki_versions :: "version_row list"

text \<open>The fields of a freshly constructed actor over empty storage.\<close>

definition new_WikiDO :: WikiDO where
  "new_WikiDO = \<lparr>fileSrc = None, wikiId = [], tenantId = [], wiki_info = [], wiki_versions = []\<rparr>"

text \<open>
  The \<open>ReadableStream\<close> of \<open>_makeStreamResponse\<close>, as it is when the constructor returns:
  the buffers \<open>controller.enqueue\<close> has put into its queue, whether \<open>controller.close()\<close>
  was called, and the variables \<open>cancelled\<close>, \<open>chunksLen\<close> and \<open>totalBytes\<close> of the
  closure.
\<close>

record readable =
  enqueued :: "byte list list"
  is_closed :: bool
  cancelled :: bool
  chunksLen :: nat
  totalBytes :: nat

text \<open>A response: its status and its body, either a text or such a stream.\<close>

datatype body = Text string | Stream readable

record response =
  status :: nat
  content_type :: string
  body :: body

definition bytes_of_string :: "string \<Rightarrow> byte list" where
  "bytes_of_string s = map (\<lambda>c. of_nat (of_char c)) s"

definition response_bytes :: "response \<Rightarrow> byte list" where
  "response_bytes r =
     (case body r of Text s \<Rightarrow> bytes_of_string s | Stream st \<Rightarrow> concat (enqueued st))"

text \<open>
  The \<open>for\<close> loop of \<open>start(controller)\<close> over the rows of a cursor: it stops at a row when
  \<open>cancelled\<close> is set, and enqueues the row otherwise.
\<close>

fun start_loop :: "readable \<Rightarrow> byte list list \<Rightarrow> readable" where
  "start_loop st [] = st"
| "start_loop st (chunk # rows) =
     (if cancelled st then st
      else start_loop
             (st\<lparr>enqueued := enqueued st @ [chunk], chunksLen := chunksLen st + 1,
                 totalBytes := totalBytes st + length chunk\<rparr>) rows)"

text \<open>
  \<open>start(controller)\<close>, which the constructor of the \<open>ReadableStream\<close> runs to its end
  before it returns: one buffer (\<open>Inl\<close>) is enqueued whole, a cursor (\<open>Inr\<close>) row by row,
  then the stream is closed. \<open>cancel()\<close> is what a consumer that gives up calls; it can
  run only once the stream exists.
\<close>

definition start :: "byte list + byte list list \<Rightarrow> readable" where
  "start cursor =
     (let st0 = \<lparr>enqueued = [], is_closed = False, cancelled = False, chunksLen = 0,
                 totalBytes = 0\<rparr>;
          st1 = (case cursor of
                   Inl arr \<Rightarrow> st0\<lparr>enqueued := [arr], chunksLen := 1, totalBytes := length arr\<rparr>
                 | Inr rows \<Rightarrow> start_loop st0 rows)
      in st1\<lparr>is_closed := True\<rparr>)"

definition cancel :: "readable \<Rightarrow> readable" where
  "cancel st = st\<lparr>cancelled := True\<rparr>"

text \<open>\<open>_makeStreamResponse(wikiId, chunksCursor)\<close>.\<close>

definition makeStreamResponse :: "byte list + byte list list \<Rightarrow> response" where
  "makeStreamResponse cursor =
     \<lparr>status = 200, content_type = ''text/html'', body = Stream (start cursor)\<rparr>"

record create_result =
  ok :: bool
  redirectUrl :: string
  createdAtMs :: int

subsection \<open>create\<close>

text \<open>The \<open>for\<close> loop of the buffered writes: chunk \<open>i\<close> gets \<open>chunkIdx = i + 1\<close> and
  \<open>chunksTotal = chunks.length\<close> (the argument \<open>len\<close>).\<close>

fun insert_chunks ::
  "string \<Rightarrow> int \<Rightarrow> byte list list \<Rightarrow> nat \<Rightarrow> nat \<Rightarrow> version_row list \<Rightarrow> version_row list" where
  "insert_chunks w ts [] i len tbl = tbl"
| "insert_chunks w ts (c # cs) i len tbl =
     insert_chunks w ts cs (i + 1) len
       (insert_or_replace
          \<lparr>v_wikiId = w, v_tsMs = ts, v_src = c, v_chunkIdx = i + 1, v_chunksTotal = Some len\<rparr>
          tbl)"

text \<open>
  \<open>create(tenantId, wikiId, name, wikiType)\<close>. \<open>asset\<close> is what the fetch of the template
  yields (\<open>Inl\<close> when it rejects), \<open>tsMs\<close> is \<open>Date.now()\<close>. \<open>runAll\<close> only creates the two
  tables, which the model holds as (possibly empty) lists of rows.
\<close>

definition create ::
  "WikiDO \<Rightarrow> string \<Rightarrow> string \<Rightarrow> string \<Rightarrow> string \<Rightarrow> error + byte list \<Rightarrow> int
     \<Rightarrow> (error + create_result) \<times> WikiDO" where
  "create s tenantId' wikiId' name wikiType asset tsMs =
     (if wikiType = ''tw5'' then
        (case asset of
           Inl e \<Rightarrow> (Inl e, s)
         | Inr bytes \<Rightarrow>
             (let s1 = s\<lparr>fileSrc := Some bytes\<rparr> in
              case chunkify bytes CHUNK_SIZE_MAX of
                Inl e \<Rightarrow> (Inl e, s1)
              | Inr chunks \<Rightarrow>
                  (Inr \<lparr>ok = True, redirectUrl = ''/w/'' @ wikiId' @ ''/'' @ name,
                        createdAtMs = tsMs\<rparr>,
                   s1\<lparr>wiki_info :=
                         insert_or_replace_info
                           \<lparr>i_wikiId = wikiId', i_tenantId = tenantId', i_name = name,
                            i_wikiType = wikiType\<rparr>
                           (wiki_info s1),
                       wiki_versions :=
                         insert_chunks wikiId' tsMs chunks 0 (length chunks) (wiki_versions s1),
                       tenantId := tenantId',
                       wikiId := wikiId'\<rparr>)))
      else (Inl (InvalidWikiType wikiType), s))"

subsection \<open>upsert\<close>

text \<open>
  The source stream, as the results of the successive reads the code makes of it; once
  the list is used up the reader reports \<open>done\<close>, and the read that reports \<open>done\<close>
  carries no bytes (the last bytes of a stream come with \<open>done = false\<close>, as the runtime's
  \<open>readAtLeast\<close> delivers them; the loop ignores \<open>value\<close> when \<open>done\<close> is set).
  \<open>NotBytes\<close> is a value that is not a \<open>Uint8Array\<close>, \<open>ReadFailed\<close> a read that rejects.
\<close>

datatype read_result = Data "byte list" | NotBytes | ReadFailed

text \<open>\<open>new Response(bytesStream).bytes()\<close>: the whole stream in one buffer.\<close>

fun read_all :: "read_result list \<Rightarrow> error + byte list" where
  "read_all [] = Inr []"
| "read_all (Data v # evs) = (case read_all evs of Inl e \<Rightarrow> Inl e | Inr bs \<Rightarrow> Inr (v @ bs))"
| "read_all (NotBytes # evs) = Inl TypeError"
| "read_all (ReadFailed # evs) = Inl StreamError"

text \<open>
  \<open>contentLength && contentLength < BYTE_SIZE_ATONCE_THRESHOLD\<close>: \<open>undefined\<close> and \<open>0\<close>
  are falsy.
\<close>

definition takes_buffered :: "int option \<Rightarrow> bool" where
  "takes_buffered contentLength =
     (case contentLength of
        None \<Rightarrow> False
      | Some n \<Rightarrow> n \<noteq> 0 \<and> n < int BYTE_SIZE_ATONCE_THRESHOLD)"

text \<open>
  The \<open>while (true)\<close> loop of the streaming path, one equation per outcome of
  \<open>readAtLeast\<close>. It returns the last \<open>chunkIdx\<close> written, or the error thrown, and the
  table as the writes made so far leave it.
\<close>

fun stream_loop ::
  "string \<Rightarrow> int \<Rightarrow> read_result list \<Rightarrow> nat \<Rightarrow> byte list list \<Rightarrow> nat \<Rightarrow> version_row list
     \<Rightarrow> (error + nat) \<times> version_row list" where
  "stream_loop w ts [] chunkIdx bufferArrays bufferArraysTotal tbl =
     (Inr (chunkIdx + 1),
      insert_or_replace
        \<lparr>v_wikiId = w, v_tsMs = ts, v_src = mergeArrayBuffers bufferArrays,
         v_chunkIdx = chunkIdx + 1, v_chunksTotal = None\<rparr> tbl)"
| "stream_loop w ts (Data v # evs) chunkIdx bufferArrays bufferArraysTotal tbl =
     (if bufferArraysTotal + length v < CHUNK_SIZE_MAX
      then stream_loop w ts evs chunkIdx (bufferArrays @ [v]) (bufferArraysTotal + length v) tbl
      else stream_loop w ts evs (chunkIdx + 1) [] 0
             (insert_or_replace
                \<lparr>v_wikiId = w, v_tsMs = ts, v_src = mergeArrayBuffers (bufferArrays @ [v]),
                 v_chunkIdx = chunkIdx + 1, v_chunksTotal = None\<rparr> tbl))"
| "stream_loop w ts (NotBytes # evs) chunkIdx bufferArrays bufferArraysTotal tbl =
     (Inl UnexpectedBodyChunkType, tbl)"
| "stream_loop w ts (ReadFailed # evs) chunkIdx bufferArrays bufferArraysTotal tbl =
     (Inl StreamError, tbl)"

text \<open>The retention step that ends a successful upsert.\<close>

definition retention :: "string \<Rightarrow> version_row list \<Rightarrow> version_row list" where
  "retention w tbl =
     (let tss = complete_tss w RETAINED_VERSIONS_NUM tbl in
      if length tss < RETAINED_VERSIONS_NUM then tbl
      else filter (\<lambda>r. \<not> (v_wikiId r = w \<and> v_tsMs r < last tss)) tbl)"

text \<open>
  \<open>upsert(wikiId, bytesStream, contentLength)\<close>; \<open>tsMs\<close> is \<open>Date.now()\<close>. The state is
  returned on failure too: rows written before the error stay.
\<close>

definition upsert ::
  "WikiDO \<Rightarrow> string \<Rightarrow> read_result list \<Rightarrow> int option \<Rightarrow> int \<Rightarrow> (error + unit) \<times> WikiDO" where
  "upsert s w bytesStream contentLength tsMs =
     (let s0 = s\<lparr>fileSrc := None\<rparr> in
      if takes_buffered contentLength then
        (case read_all bytesStream of
           Inl e \<Rightarrow> (Inl e, s0)
         | Inr bytes \<Rightarrow>
             (case chunkify bytes CHUNK_SIZE_MAX of
                Inl e \<Rightarrow> (Inl e, s0)
              | Inr chunks \<Rightarrow>
                  (Inr (),
                   s0\<lparr>wiki_versions :=
                         retention w
                           (insert_chunks w tsMs chunks 0 (length chunks) (wiki_versions s0)),
                       fileSrc := Some bytes\<rparr>)))
      else
        (case stream_loop w tsMs bytesStream 0 [] 0 (wiki_versions s0) of
           (Inl e, tbl) \<Rightarrow> (Inl e, s0\<lparr>wiki_versions := tbl\<rparr>)
         | (Inr chunkIdx, tbl) \<Rightarrow>
             (Inr (),
              s0\<lparr>wiki_versions :=
                    retention w
                      (insert_or_replace
                         \<lparr>v_wikiId = w, v_tsMs = tsMs, v_src = [],
                          v_chunkIdx = chunkIdx + 1, v_chunksTotal = Some (chunkIdx + 1)\<rparr>
                         tbl)\<rparr>)))"

subsection \<open>getFileSrc and deleteAll\<close>

text \<open>
  \<open>chunksInfo.chunksTotal * CHUNK_SIZE_MAX\<close>; a \<open>NULL\<close> total multiplies to \<open>0\<close>.
\<close>

definition total_of :: "version_row \<Rightarrow> nat" where
  "total_of r = (case v_chunksTotal r of None \<Rightarrow> 0 | Some n \<Rightarrow> n)"

definition getFileSrc :: "WikiDO \<Rightarrow> string \<Rightarrow> (error + response) \<times> WikiDO" where
  "getFileSrc s w =
     (if wikiId s = [] \<or> wikiId s \<noteq> w
      then (Inr \<lparr>status = 400, content_type = ''text/plain;charset=UTF-8'', body = Text ''_|_''\<rparr>, s)
      else
        (case fileSrc s of
           Some cached \<Rightarrow> (Inr (makeStreamResponse (Inl cached)), s)
         | None \<Rightarrow>
             (case chunksInfo w (wiki_versions s) of
                Inl e \<Rightarrow> (Inl e, s)
              | Inr info \<Rightarrow>
                  (let cursor = chunksCursor w (v_tsMs info) (wiki_versions s) in
                   if total_of info * CHUNK_SIZE_MAX < BYTE_SIZE_ATONCE_THRESHOLD
                   then (let merged = mergeArrayBuffers cursor
                         in (Inr (makeStreamResponse (Inl merged)), s\<lparr>fileSrc := Some merged\<rparr>))
                   else (Inr (makeStreamResponse (Inr cursor)), s)))))"

definition deleteAll :: "WikiDO \<Rightarrow> WikiDO" where
  "deleteAll s =
     s\<lparr>fileSrc := None, wikiId := [], tenantId := [], wiki_info := [], wiki_versions := []\<rparr>"

section \<open>Sequences of operations and example states\<close>

text \<open>
  What \<open>reader.readAtLeast(n, new Uint8Array(n))\<close> promises about the reads of one stream:
  a read never holds more than the buffer's \<open>n\<close> bytes, and it holds fewer than the
  minimum \<open>n\<close> only when no data follows it.
\<close>

fun readAtLeast_ok :: "nat \<Rightarrow> read_result list \<Rightarrow> bool" where
  "readAtLeast_ok n [] = True"
| "readAtLeast_ok n (Data v # evs) =
     (length v \<le> n \<and> (length v < n \<longrightarrow> (case evs of Data u # rest \<Rightarrow> False | _ \<Rightarrow> True))
      \<and> readAtLeast_ok n evs)"
| "readAtLeast_ok n (NotBytes # evs) = True"
| "readAtLeast_ok n (ReadFailed # evs) = True"

text \<open>The calls an actor receives, with what the platform supplies to each.\<close>

datatype wiki_op =
    OpCreate string string string string "error + byte list" int
  | OpUpsert string "read_result list" "int option" int
  | OpGetFileSrc string
  | OpDeleteAll

fun apply_op :: "WikiDO \<Rightarrow> wiki_op \<Rightarrow> WikiDO" where
  "apply_op s (OpCreate t w n ty asset ts) = snd (create s t w n ty asset ts)"
| "apply_op s (OpUpsert w evs hint ts) = snd (upsert s w evs hint ts)"
| "apply_op s (OpGetFileSrc w) = snd (getFileSrc s w)"
| "apply_op s OpDeleteAll = deleteAll s"

fun op_ok :: "wiki_op \<Rightarrow> bool" where
  "op_ok (OpUpsert w evs hint ts) = readAtLeast_ok CHUNK_SIZE_MAX evs"
| "op_ok _ = True"

definition run_ops :: "wiki_op list \<Rightarrow> WikiDO" where
  "run_ops ops = foldl apply_op new_WikiDO ops"

definition bounded_rows :: "version_row list \<Rightarrow> bool" where
  "bounded_rows tbl \<longleftrightarrow> (\<forall>r\<in>set tbl. length (v_src r) \<le> CHUNK_SIZE_MAX)"

definition example_created :: WikiDO where
  "example_created = snd (create new_WikiDO ''T1'' ''w1'' ''Notes'' ''tw5'' (Inr [1, 2, 3]) 1000)"

definition example_ops :: "wiki_op list" where
  "example_ops =
     [OpCreate ''T1'' ''w1'' ''Notes'' ''tw5'' (Inr [1, 2, 3]) 1000,
      OpUpsert ''w1'' [Data [4, 5]] None 2000,
      OpGetFileSrc ''w1'']"

section \<open>Auxiliary notions for the proofs\<close>

text \<open>
  The rows of one version, numbered from \<open>i + 1\<close>, all with the same \<open>chunksTotal\<close> entry.
\<close>

fun numbered_rows ::
  "string \<Rightarrow> int \<Rightarrow> nat \<Rightarrow> nat option \<Rightarrow> byte list list \<Rightarrow> version_row list" where
  "numbered_rows w ts i tot [] = []"
| "numbered_rows w ts i tot (c # cs) =
     \<lparr>v_wikiId = w, v_tsMs = ts, v_src = c, v_chunkIdx = i + 1, v_chunksTotal = tot\<rparr>
       # numbered_rows w ts (i + 1) tot cs"

text \<open>
  The payloads the streaming loop flushes, in order, and the error that stops it, if any.
\<close>

fun flushed :: "read_result list \<Rightarrow> byte list list \<Rightarrow> nat \<Rightarrow> error option \<times> byte list list" where
  "flushed [] bufs tot = (None, [mergeArrayBuffers bufs])"
| "flushed (Data v # evs) bufs tot =
     (if tot + length v < CHUNK_SIZE_MAX then flushed evs (bufs @ [v]) (tot + length v)
      else (case flushed evs [] 0 of (e, cs) \<Rightarrow> (e, mergeArrayBuffers (bufs @ [v]) # cs)))"
| "flushed (NotBytes # evs) bufs tot = (Some UnexpectedBodyChunkType, [])"
| "flushed (ReadFailed # evs) bufs tot = (Some StreamError, [])"

text \<open>
  A timestamp is fresh for a document when it is later than every row stored for it
  (\<open>Date.now()\<close> has moved on since the last write).
\<close>

definition fresh_ts :: "string \<Rightarrow> int \<Rightarrow> version_row list \<Rightarrow> bool" where
  "fresh_ts w ts tbl \<longleftrightarrow> list_all (\<lambda>r. v_wikiId r = w \<longrightarrow> v_tsMs r < ts) tbl"

definition sel :: "string \<Rightarrow> int \<Rightarrow> version_row \<Rightarrow> bool" where
  "sel w ts r \<longleftrightarrow> v_wikiId r = w \<and> v_tsMs r = ts"

text \<open>The rows a successful upsert writes before the retention step.\<close>

definition written_rows :: "string \<Rightarrow> int \<Rightarrow> read_result list \<Rightarrow> int option \<Rightarrow> version_row list" where
  "written_rows w ts evs hint =
     (if takes_buffered hint then
        (case read_all evs of
           Inl e \<Rightarrow> []
         | Inr bytes \<Rightarrow>
             (case chunkify bytes CHUNK_SIZE_MAX of
                Inl e \<Rightarrow> []
              | Inr chunks \<Rightarrow> numbered_rows w ts 0 (Some (length chunks)) chunks))
      else
        (let cs = snd (flushed evs [] 0) in
         numbered_rows w ts 0 None cs
           @ [\<lparr>v_wikiId = w, v_tsMs = ts, v_src = [], v_chunkIdx = length cs + 1,
               v_chunksTotal = Some (length cs + 1)\<rparr>]))"

text \<open>A timestamp names a complete version when a row with \<open>chunkIdx = chunksTotal\<close> carries it.\<close>

definition has_terminal :: "string \<Rightarrow> int \<Rightarrow> version_row list \<Rightarrow> bool" where
  "has_terminal w ts tbl \<longleftrightarrow> list_ex (\<lambda>r. is_complete w r \<and> v_tsMs r = ts) tbl"

text \<open>The example actor after a restart: the storage is kept, the cache is gone.\<close>

definition example_restarted :: WikiDO where
  "example_restarted = example_created\<lparr>fileSrc := None\<rparr>"

text \<open>
  The example document after a save of 3,000,000 bytes with no length hint, the source
  read in two full buffers.
\<close>

definition example_3mb :: WikiDO where
  "example_3mb =
     snd (upsert example_created ''w1''
            [Data (replicate 1500000 7), Data (replicate 1500000 7)] None 2000)"

text \<open>
  The same actor after a second save in the same millisecond, of three bytes with their
  length as the hint, and a restart: the timestamp 2000 now has two rows with
  \<open>chunkIdx = chunksTotal\<close>, the first and the fourth.
\<close>

definition example_tie :: WikiDO where
  "example_tie = (snd (upsert example_3mb ''w1'' [Data [9, 8, 7]] (Some 3) 2000))\<lparr>fileSrc := None\<rparr>"

section \<open>The tenant coordinator (TenantDO in durable-objects.ts)\<close>

record wikis_row =
  w_wikiId :: string
  w_tenantId :: string
  w_name :: string
  w_wikiType :: string
  w_createdAtMs :: int

text \<open>
  The actor: \<open>this.tenantId\<close> (empty while unclaimed) and its two tables, \<open>tenant_info\<close>
  as rows \<open>(tenantId, dataJson)\<close>. As for the document actor, \<open>runAll\<close> only creates the
  tables.
\<close>

record TenantDO =
  t_tenantId :: string
  tenant_info :: "(string \<times> string) list"
  wikis :: "wikis_row list"

definition new_TenantDO :: TenantDO where
  "new_TenantDO = \<lparr>t_tenantId = [], tenant_info = [], wikis = []\<rparr>"

text \<open>\<open>INSERT INTO tenant_info VALUES (?, ?) ON CONFLICT DO NOTHING\<close> (primary key \<open>tenantId\<close>).\<close>

definition insert_tenant_info ::
  "string \<times> string \<Rightarrow> (string \<times> string) list \<Rightarrow> (string \<times> string) list" where
  "insert_tenant_info r tbl = (if fst r \<in> fst ` set tbl then tbl else tbl @ [r])"

text \<open>\<open>INSERT OR REPLACE INTO wikis\<close> (primary key \<open>wikiId\<close>).\<close>

definition insert_or_replace_wiki :: "wikis_row \<Rightarrow> wikis_row list \<Rightarrow> wikis_row list" where
  "insert_or_replace_wiki r tbl = filter (\<lambda>x. w_wikiId x \<noteq> w_wikiId r) tbl @ [r]"

text \<open>\<open>_initTables(tenantId)\<close>: the empty string is the falsy, unclaimed \<open>this.tenantId\<close>.\<close>

definition initTables :: "TenantDO \<Rightarrow> string \<Rightarrow> (error + string) \<times> TenantDO" where
  "initTables t tenantId' =
     (if t_tenantId t \<noteq> [] then
        (if t_tenantId t \<noteq> tenantId' then (Inl (WrongTenant tenantId' (t_tenantId t)), t)
         else (Inr (t_tenantId t), t))
      else
        (Inr tenantId',
         t\<lparr>tenant_info := insert_tenant_info (tenantId', ''{}'') (tenant_info t),
           t_tenantId := tenantId'\<rparr>))"

record createWiki_result =
  cw_ok :: bool
  cw_redirectUrl :: string

text \<open>
  \<open>createWiki(tenantId, name, wikiType)\<close>. \<open>doId\<close> is the string of the id
  \<open>newUniqueId()\<close> allocates and \<open>wiki\<close> the document actor behind it; \<open>asset\<close> and \<open>tsMs\<close> are
  what that actor's \<open>create\<close> gets from the platform. The states of both actors are
  returned.
\<close>

definition createWiki ::
  "TenantDO \<Rightarrow> string \<Rightarrow> string \<Rightarrow> string \<Rightarrow> string \<Rightarrow> WikiDO \<Rightarrow> error + byte list \<Rightarrow> int
     \<Rightarrow> (error + createWiki_result) \<times> TenantDO \<times> WikiDO" where
  "createWiki t tenantId' name wikiType doId wiki asset tsMs =
     (case initTables t tenantId' of
        (Inl e, t1) \<Rightarrow> (Inl e, t1, wiki)
      | (Inr _, t1) \<Rightarrow>
          (case create wiki tenantId' doId name wikiType asset tsMs of
             (Inl e, wiki1) \<Rightarrow> (Inl e, t1, wiki1)
           | (Inr res, wiki1) \<Rightarrow>
               (Inr \<lparr>cw_ok = True, cw_redirectUrl = redirectUrl res\<rparr>,
                t1\<lparr>wikis :=
                     insert_or_replace_wiki
                       \<lparr>w_wikiId = doId, w_tenantId = tenantId', w_name = name,
                        w_wikiType = wikiType, w_createdAtMs = createdAtMs res\<rparr>
                       (wikis t1)\<rparr>,
                wiki1)))"

record ApiWiki =
  a_tenantId :: string
  a_wikiId :: string
  a_name :: string
  a_wikiUrl :: string
  a_wikiType :: string
  a_createdAtMs :: int

text \<open>
  \<open>encodeURIComponent\<close> on the UTF-8 bytes of a well-formed string: unreserved characters
  stay, every other byte becomes \<open>%XX\<close>.
\<close>

definition unreserved :: "char list" where
  "unreserved =
     CHR 0x27 # ''ABCDEFGHIJKLMNOPQRSTUVWXYZabcdefghijklmnopqrstuvwxyz0123456789-_.!~*()''"

definition hex_digit :: "nat \<Rightarrow> char" where
  "hex_digit n = ''0123456789ABCDEF'' ! (n mod 16)"

definition encodeURIComponent :: "string \<Rightarrow> string" where
  "encodeURIComponent s =
     concat (map (\<lambda>c. if c \<in> set unreserved then [c]
                       else [CHR ''%'', hex_digit (of_char c div 16), hex_digit (of_char c mod 16)]) s)"

text \<open>\<open>list()\<close>.\<close>

definition list_wikis :: "TenantDO \<Rightarrow> ApiWiki list" where
  "list_wikis t =
     (if t_tenantId t = [] then []
      else map (\<lambda>row.
                 \<lparr>a_tenantId = w_tenantId row, a_wikiId = w_wikiId row, a_name = w_name row,
                  a_wikiUrl = ''/w/'' @ encodeURIComponent (w_wikiId row) @ ''/''
                                @ encodeURIComponent (w_name row),
                  a_wikiType = w_wikiType row, a_createdAtMs = w_createdAtMs row\<rparr>)
             (wikis t))"

text \<open>
  \<open>env.WIKI.idFromString(wikiId)\<close>: the id of a document actor is a string of 64
  hexadecimal digits; on any other string the call throws a \<open>TypeError\<close>. (That the id
  belongs to this namespace is taken for granted.)
\<close>

definition idFromString :: "string \<Rightarrow> error + string" where
  "idFromString wikiId' =
     (if length wikiId' = 64 \<and> list_all (\<lambda>c. c \<in> set ''0123456789abcdefABCDEF'') wikiId'
      then Inr wikiId' else Inl TypeError)"

text \<open>
  \<open>deleteWiki(tenantId, wikiId)\<close>, on the tenant actor and the document actor \<open>wiki\<close>
  that the id names.
\<close>

definition deleteWiki ::
  "TenantDO \<Rightarrow> string \<Rightarrow> string \<Rightarrow> WikiDO \<Rightarrow> (error + ApiWiki list) \<times> TenantDO \<times> WikiDO" where
  "deleteWiki t tenantId' wikiId' wiki =
     (case initTables t tenantId' of
        (Inl e, t1) \<Rightarrow> (Inl e, t1, wiki)
      | (Inr _, t1) \<Rightarrow>
          (case idFromString wikiId' of
             Inl e \<Rightarrow> (Inl e, t1, wiki)
           | Inr doId \<Rightarrow>
               (let t2 = t1\<lparr>wikis := filter (\<lambda>r. \<not> (w_wikiId r = wikiId'
                                                         \<and> w_tenantId r = tenantId'))
                                        (wikis t1)\<rparr>
                in (Inr (list_wikis t2), t2, deleteAll wiki))))"

text \<open>The calls a tenant actor receives.\<close>

datatype tenant_op =
    TCreateWiki string string string string WikiDO "error + byte list" int
  | TDeleteWiki string string WikiDO
  | TList

fun apply_tenant_op :: "TenantDO \<Rightarrow> tenant_op \<Rightarrow> TenantDO" where
  "apply_tenant_op t (TCreateWiki tid name ty doId wiki asset ts) =
     fst (snd (createWiki t tid name ty doId wiki asset ts))"
| "apply_tenant_op t (TDeleteWiki tid wid wiki) = fst (snd (deleteWiki t tid wid wiki))"
| "apply_tenant_op t TList = t"

fun tenant_op_result :: "TenantDO \<Rightarrow> tenant_op \<Rightarrow> error option" where
  "tenant_op_result t (TCreateWiki tid name ty doId wiki asset ts) =
     (case fst (createWiki t tid name ty doId wiki asset ts) of Inl e \<Rightarrow> Some e | Inr _ \<Rightarrow> None)"
| "tenant_op_result t (TDeleteWiki tid wid wiki) =
     (case fst (deleteWiki t tid wid wiki) of Inl e \<Rightarrow> Some e | Inr _ \<Rightarrow> None)"
| "tenant_op_result t TList = None"

fun presented :: "tenant_op \<Rightarrow> string option" where
  "presented (TCreateWiki tid name ty doId wiki asset ts) = Some tid"
| "presented (TDeleteWiki tid wid wiki) = Some tid"
| "presented TList = None"

text \<open>A tenant actor claimed by \<open>T1\<close>.\<close>

definition example_tenant :: TenantDO where
  "example_tenant = snd (initTables new_TenantDO ''T1'')"

section \<open>The schema-migration runner (sql-migrations.ts)\<close>

record SchemaMigration =
  idMonotonicInc :: nat
  description :: string
  sql :: string

text \<open>The migration lists of the two actors (white space of the SQL texts normalised).\<close>

definition TenantMigrations :: "SchemaMigration list" where
  "TenantMigrations =
     [\<lparr>idMonotonicInc = 1, description = ''initial version'',
       sql = ''CREATE TABLE IF NOT EXISTS tenant_info(tenantId TEXT PRIMARY KEY, dataJson TEXT); CREATE TABLE IF NOT EXISTS wikis (wikiId TEXT PRIMARY KEY, tenantId TEXT, name TEXT, wikiType TEXT);''\<rparr>,
      \<lparr>idMonotonicInc = 2, description = ''add timestamp column to wikis'',
       sql = ''ALTER TABLE wikis ADD createdAtMs INTEGER;''\<rparr>]"

definition WikiMigrations :: "SchemaMigration list" where
  "WikiMigrations =
     [\<lparr>idMonotonicInc = 1, description = ''initial version'',
       sql = ''CREATE TABLE IF NOT EXISTS wiki_info (wikiId TEXT PRIMARY KEY, tenantId TEXT, name TEXT, wikiType TEXT); CREATE TABLE IF NOT EXISTS wiki_versions (wikiId TEXT, tsMs INTEGER, src BLOB, chunkIdx INTEGER, chunksTotal INTEGER, PRIMARY KEY (wikiId, tsMs, chunkIdx));''\<rparr>]"

text \<open>
  The runner's persistent state: the stored high-water mark and the actor's store.
\<close>

record 'db migration_state =
  highWater :: nat
  store :: 'db

record migration_result =
  applied :: "nat list"
  rowsWritten :: nat
  failedAt :: "nat option"

text \<open>
  Modelled from the spec: the class \<open>SchemaMigrations\<close> and its \<open>runAll\<close> live in
  \<open>sql-migrations.ts\<close>, which is not among the sources; only the construction and the call
  sites are. After section 4.1 of the specification: given the ordered list of
  migrations and the stored high-water mark, \<open>runAll\<close> applies the migrations whose id is
  greater than the mark, in the order of the list, each inside one atomic unit (\<open>exec\<close>
  runs the statements of one migration on the store and yields the rows written and the
  new store, or \<open>None\<close> when they fail, the store then being as before), and advances the
  mark after a migration's statements have succeeded (one more written row). A failure
  stops the run. The result lists the ids applied, counts the rows written, and names
  the migration that failed.
\<close>

fun runAll ::
  "(string \<Rightarrow> 'db \<Rightarrow> (nat \<times> 'db) option) \<Rightarrow> SchemaMigration list \<Rightarrow> 'db migration_state
     \<Rightarrow> migration_result \<times> 'db migration_state" where
  "runAll exec [] st = (\<lparr>applied = [], rowsWritten = 0, failedAt = None\<rparr>, st)"
| "runAll exec (m # ms) st =
     (if idMonotonicInc m \<le> highWater st then runAll exec ms st
      else
        (case exec (sql m) (store st) of
           None \<Rightarrow> (\<lparr>applied = [], rowsWritten = 0, failedAt = Some (idMonotonicInc m)\<rparr>, st)
         | Some (n, db') \<Rightarrow>
             (case runAll exec ms \<lparr>highWater = idMonotonicInc m, store = db'\<rparr> of
                (r, st') \<Rightarrow>
                  (\<lparr>applied = idMonotonicInc m # applied r,
                    rowsWritten = n + 1 + rowsWritten r,
                    failedAt = failedAt r\<rparr>, st'))))"

definition pending :: "SchemaMigration list \<Rightarrow> nat \<Rightarrow> nat list" where
  "pending ms hw = map idMonotonicInc (filter (\<lambda>m. hw < idMonotonicInc m) ms)"

text \<open>A store that logs the statements run on it; the statement \<open>FAIL\<close> fails.\<close>

definition example_exec :: "string \<Rightarrow> string list \<Rightarrow> (nat \<times> string list) option" where
  "example_exec q db = (if q = ''FAIL'' then None else Some (1, db @ [q]))"

section \<open>Sequences of saves\<close>

text \<open>
  The timestamps of the complete versions of a document, and of all its rows.
\<close>

definition complete_ts :: "string \<Rightarrow> version_row list \<Rightarrow> int set" where
  "complete_ts w tbl = v_tsMs ` set (complete_rows w tbl)"

definition all_ts :: "string \<Rightarrow> version_row list \<Rightarrow> int set" where
  "all_ts w tbl = v_tsMs ` {r \<in> set tbl. v_wikiId r = w}"

text \<open>
  Successive upserts to one document, each given as its source, its length hint and its
  \<open>Date.now()\<close>; the sequence stops at the first upsert that fails.
\<close>

fun run_upserts ::
  "WikiDO \<Rightarrow> string \<Rightarrow> (read_result list \<times> int option \<times> int) list \<Rightarrow> (error + unit) \<times> WikiDO" where
  "run_upserts s w [] = (Inr (), s)"
| "run_upserts s w ((evs, hint, ts) # us) =
     (case upsert s w evs hint ts of
        (Inl e, s') \<Rightarrow> (Inl e, s')
      | (Inr u, s') \<Rightarrow> run_upserts s' w us)"

text \<open>
  A save stores a version when its source delivers its bytes without a fault, and the
  bytes are not empty if it is buffered (a length hint that is not zero announces a body
  that is not empty).
\<close>

definition stores_version :: "read_result list \<times> int option \<times> int \<Rightarrow> bool" where
  "stores_version u =
     (case u of (evs, hint, ts) \<Rightarrow>
        (case read_all evs of Inl e \<Rightarrow> False | Inr b \<Rightarrow> \<not> (takes_buffered hint \<and> b = [])))"

definition ts_of :: "read_result list \<times> int option \<times> int \<Rightarrow> int" where
  "ts_of u = snd (snd u)"

text \<open>
  What holds of the table after the saves stamped \<open>T\<close> (in ascending order, none before
  \<open>L\<close>): the latest ten of them are complete versions, and every other row of the
  document is older than \<open>L\<close> and can only be there while fewer than ten saves were made.
\<close>

definition retained_inv :: "string \<Rightarrow> int \<Rightarrow> version_row list \<Rightarrow> int list \<Rightarrow> bool" where
  "retained_inv w L tbl T \<longleftrightarrow>
     set (drop (length T - RETAINED_VERSIONS_NUM) T) \<subseteq> complete_ts w tbl
     \<and> (\<forall>a\<in>all_ts w tbl.
           a \<in> set (drop (length T - RETAINED_VERSIONS_NUM) T)
           \<or> (length T < RETAINED_VERSIONS_NUM \<and> a < L))"

text \<open>Fifteen saves of one byte each, a millisecond apart.\<close>

definition example_saves :: "(read_result list \<times> int option \<times> int) list" where
  "example_saves = map (\<lambda>k. ([Data [of_nat k]], None, 2000 + int k)) [0..<15]"

section \<open>Properties of the shared utilities\<close>

lemma merge_loop_concat:
  "length arr = w + length (concat cs) + k \<Longrightarrow>
   merge_loop arr w cs = take w arr @ concat cs @ drop (w + length (concat cs)) arr"
proof (induction cs arbitrary: arr w)
  case Nil
  then show ?case by simp
next
  case (Cons c cs)
  have len: "length (set_at arr c w) = (w + length c) + length (concat cs) + k"
    using Cons.prems by (simp add: set_at_def)
  have tk: "take (w + length c) (set_at arr c w) = take w arr @ c"
    using Cons.prems by (simp add: set_at_def)
  have dr: "drop (w + (length c + length (concat cs))) (set_at arr c w)
              = drop (w + (length c + length (concat cs))) arr"
    using Cons.prems by (simp add: set_at_def ac_simps)
  show ?case
    using Cons.IH [OF len] by (simp add: tk dr add.assoc)
qed

lemma foldl_length_sum:
  "foldl (\<lambda>acc b. acc + length b) a chunks = a + length (concat chunks)"
  by (induction chunks arbitrary: a) simp_all

lemma mergeArrayBuffers_concat: "mergeArrayBuffers chunks = concat chunks"
proof -
  let ?arr = "replicate (foldl (\<lambda>acc b. acc + length b) 0 chunks) (0::byte)"
  have "length ?arr = 0 + length (concat chunks) + 0"
    by (simp add: foldl_length_sum)
  from merge_loop_concat [OF this] show ?thesis
    by (simp add: mergeArrayBuffers_def foldl_length_sum)
qed

text \<open>
  No cancellation can reach the loop of \<open>start\<close>: when the constructor returns, every row
  of the cursor is in the queue and the stream is closed.
\<close>

lemma start_loop_all:
  "\<not> cancelled st \<Longrightarrow>
   start_loop st rows =
     st\<lparr>enqueued := enqueued st @ rows, chunksLen := chunksLen st + length rows,
        totalBytes := totalBytes st + length (concat rows)\<rparr>"
proof (induction rows arbitrary: st)
  case Nil
  then show ?case by simp
next
  case (Cons chunk rows)
  let ?st = "st\<lparr>enqueued := enqueued st @ [chunk], chunksLen := chunksLen st + 1,
                  totalBytes := totalBytes st + length chunk\<rparr>"
  from Cons.prems have "\<not> cancelled ?st" by simp
  from Cons.IH [OF this] Cons.prems show ?case by simp
qed

lemma start_cursor:
  "start (Inr rows) =
     \<lparr>enqueued = rows, is_closed = True, cancelled = False, chunksLen = length rows,
      totalBytes = length (concat rows)\<rparr>"
  by (simp add: start_def start_loop_all)

lemma start_buffer:
  "start (Inl arr) =
     \<lparr>enqueued = [arr], is_closed = True, cancelled = False, chunksLen = 1,
      totalBytes = length arr\<rparr>"
  by (simp add: start_def)

lemma enqueued_start [simp]:
  "enqueued (start (Inl arr)) = [arr]" "enqueued (start (Inr rows)) = rows"
  by (simp_all add: start_cursor start_buffer)

lemma subarray_length_le: "length (subarray bb r (min (r + sz) (length bb))) \<le> sz"
  by (simp add: subarray_def)

lemma chunkify_loop_length: "length (chunkify_loop bb sz r n) = n"
  by (induction n arbitrary: r) (simp_all add: Let_def)

lemma chunkify_loop_bounded: "c \<in> set (chunkify_loop bb sz r n) \<Longrightarrow> length c \<le> sz"
proof (induction n arbitrary: r)
  case 0
  then show ?case by simp
next
  case (Suc n)
  then show ?case
    using subarray_length_le [of bb r sz] by (auto simp: Let_def)
qed

lemma chunkify_loop_concat:
  "concat (chunkify_loop bb sz r n) = take (n * sz) (drop r bb)"
proof (induction n arbitrary: r)
  case 0
  then show ?case by simp
next
  case (Suc n)
  show ?case
  proof (cases "r + sz \<le> length bb")
    case True
    then have e: "min (r + sz) (length bb) = r + sz" by simp
    have "take (sz + n * sz) (drop r bb) = take sz (drop r bb) @ take (n * sz) (drop (r + sz) bb)"
      by (simp add: take_add add.commute)
    then show ?thesis
      using Suc.IH [of "r + sz"] by (simp add: Let_def e subarray_def)
  next
    case False
    then have e: "min (r + sz) (length bb) = length bb" by simp
    have "length (drop r bb) \<le> sz + n * sz" using False by simp
    then have "take (sz + n * sz) (drop r bb) = drop r bb" by simp
    then show ?thesis
      using Suc.IH [of "length bb"] by (simp add: Let_def e subarray_def)
  qed
qed

lemma ceil_div_covers: "0 < b \<Longrightarrow> a \<le> ceil_div a b * b"
proof -
  assume b: "0 < b"
  have "(a + b - 1) = (a + b - 1) div b * b + (a + b - 1) mod b" by simp
  moreover have "(a + b - 1) mod b \<le> b - 1" using b by (simp add: less_Suc_eq_le [symmetric])
  ultimately have "a + b - 1 \<le> (a + b - 1) div b * b + (b - 1)" by linarith
  then show ?thesis using b by (simp add: ceil_div_def)
qed

lemma chunkify_ok:
  "0 < sz \<Longrightarrow> \<exists>cs. chunkify bb sz = Inr cs \<and> length cs = ceil_div (length bb) sz
     \<and> (\<forall>c\<in>set cs. length c \<le> sz) \<and> concat cs = bb"
  using ceil_div_covers [of sz "length bb"]
  by (auto simp: chunkify_def chunkify_loop_length chunkify_loop_concat dest: chunkify_loop_bounded)

section \<open>The size of chunk rows\<close>

lemma bounded_insert:
  "bounded_rows tbl \<Longrightarrow> length (v_src r) \<le> CHUNK_SIZE_MAX \<Longrightarrow> bounded_rows (insert_or_replace r tbl)"
  by (auto simp: bounded_rows_def insert_or_replace_def)

lemma bounded_filter: "bounded_rows tbl \<Longrightarrow> bounded_rows (filter P tbl)"
  by (auto simp: bounded_rows_def)

lemma bounded_retention: "bounded_rows tbl \<Longrightarrow> bounded_rows (retention w tbl)"
  by (simp add: retention_def Let_def bounded_filter)

lemma bounded_insert_chunks:
  "bounded_rows tbl \<Longrightarrow> \<forall>c\<in>set cs. length c \<le> CHUNK_SIZE_MAX \<Longrightarrow>
   bounded_rows (insert_chunks w ts cs i n tbl)"
  by (induction cs arbitrary: i tbl) (simp_all add: bounded_insert)

lemma bounded_stream_loop:
  "readAtLeast_ok CHUNK_SIZE_MAX evs \<Longrightarrow> bounded_rows tbl \<Longrightarrow>
   tot = length (concat bufs) \<Longrightarrow> tot < CHUNK_SIZE_MAX \<Longrightarrow>
   (bufs \<noteq> [] \<Longrightarrow> (case evs of Data u # rest \<Rightarrow> False | _ \<Rightarrow> True)) \<Longrightarrow>
   bounded_rows (snd (stream_loop w ts evs idx bufs tot tbl))"
proof (induction evs arbitrary: idx bufs tot tbl)
  case Nil
  then show ?case by (simp add: bounded_insert mergeArrayBuffers_concat)
next
  case (Cons ev evs)
  show ?case
  proof (cases ev)
    case (Data v)
    with Cons.prems have bufs: "bufs = []" by (cases bufs) simp_all
    with Cons.prems have tot: "tot = 0" by simp
    from Cons.prems Data have v: "length v \<le> CHUNK_SIZE_MAX" and rest: "readAtLeast_ok CHUNK_SIZE_MAX evs"
      and short: "length v < CHUNK_SIZE_MAX \<Longrightarrow> (case evs of Data u # rest \<Rightarrow> False | _ \<Rightarrow> True)"
      by simp_all
    show ?thesis
    proof (cases "length v < CHUNK_SIZE_MAX")
      case True
      have "bounded_rows (snd (stream_loop w ts evs idx [v] (length v) tbl))"
        by (rule Cons.IH) (use rest Cons.prems True short in simp_all)
      then show ?thesis using True Data bufs tot by simp
    next
      case False
      let ?tbl = "insert_or_replace
                \<lparr>v_wikiId = w, v_tsMs = ts, v_src = mergeArrayBuffers [v],
                 v_chunkIdx = idx + 1, v_chunksTotal = None\<rparr> tbl"
      have b: "bounded_rows ?tbl"
        using Cons.prems v by (simp add: bounded_insert mergeArrayBuffers_concat)
      have "bounded_rows (snd (stream_loop w ts evs (idx + 1) [] 0 ?tbl))"
        by (rule Cons.IH) (use rest b in \<open>simp_all add: CHUNK_SIZE_MAX_def\<close>)
      then show ?thesis using False Data bufs tot by simp
    qed
  next
    case NotBytes
    then show ?thesis using Cons.prems by simp
  next
    case ReadFailed
    then show ?thesis using Cons.prems by simp
  qed
qed

lemma chunkify_max:
  "\<exists>cs. chunkify bb CHUNK_SIZE_MAX = Inr cs \<and> length cs = ceil_div (length bb) CHUNK_SIZE_MAX
     \<and> (\<forall>c\<in>set cs. length c \<le> CHUNK_SIZE_MAX) \<and> concat cs = bb"
  by (rule chunkify_ok) (simp add: CHUNK_SIZE_MAX_def)

lemma bounded_create:
  "bounded_rows (wiki_versions s) \<Longrightarrow> bounded_rows (wiki_versions (snd (create s t w n ty asset ts)))"
  using chunkify_max [of "case asset of Inr b \<Rightarrow> b | Inl e \<Rightarrow> []"]
  by (auto simp: create_def Let_def bounded_insert_chunks split: sum.splits)

lemma bounded_upsert:
  assumes "bounded_rows (wiki_versions s)" "readAtLeast_ok CHUNK_SIZE_MAX evs"
  shows "bounded_rows (wiki_versions (snd (upsert s w evs hint ts)))"
proof (cases "takes_buffered hint")
  case True
  show ?thesis
  proof (cases "read_all evs")
    case (Inl e)
    then show ?thesis using True assms by (simp add: upsert_def)
  next
    case (Inr bytes)
    from chunkify_max [of bytes] obtain cs where
      cs: "chunkify bytes CHUNK_SIZE_MAX = Inr cs" "\<forall>c\<in>set cs. length c \<le> CHUNK_SIZE_MAX"
      by blast
    then show ?thesis using True Inr assms
      by (simp add: upsert_def bounded_retention bounded_insert_chunks)
  qed
next
  case False
  have b: "bounded_rows (snd (stream_loop w ts evs 0 [] 0 (wiki_versions s)))"
    by (rule bounded_stream_loop) (use assms in \<open>simp_all add: CHUNK_SIZE_MAX_def\<close>)
  show ?thesis
  proof (cases "stream_loop w ts evs 0 [] 0 (wiki_versions s)")
    case (Pair res tbl)
    with b have "bounded_rows tbl" by simp
    then show ?thesis using False Pair
      by (cases res) (simp_all add: upsert_def bounded_retention bounded_insert)
  qed
qed

lemma bounded_getFileSrc:
  "bounded_rows (wiki_versions s) \<Longrightarrow> bounded_rows (wiki_versions (snd (getFileSrc s w)))"
  by (auto simp: getFileSrc_def Let_def split: option.splits sum.splits)

lemma bounded_apply_op:
  "bounded_rows (wiki_versions s) \<Longrightarrow> op_ok x \<Longrightarrow> bounded_rows (wiki_versions (apply_op s x))"
proof (cases x)
  case OpDeleteAll
  then show ?thesis by (simp add: deleteAll_def bounded_rows_def)
qed (simp_all add: bounded_create bounded_upsert bounded_getFileSrc)

lemma bounded_foldl:
  "bounded_rows (wiki_versions s) \<Longrightarrow> \<forall>x\<in>set ops. op_ok x \<Longrightarrow>
   bounded_rows (wiki_versions (foldl apply_op s ops))"
  by (induction ops arbitrary: s) (simp_all add: bounded_apply_op)

lemma example_created_eq:
  "example_created =
     \<lparr>fileSrc = Some [1, 2, 3], wikiId = ''w1'', tenantId = ''T1'',
      wiki_info = [\<lparr>i_wikiId = ''w1'', i_tenantId = ''T1'', i_name = ''Notes'', i_wikiType = ''tw5''\<rparr>],
      wiki_versions = [\<lparr>v_wikiId = ''w1'', v_tsMs = 1000, v_src = [1, 2, 3], v_chunkIdx = 1,
                         v_chunksTotal = Some 1\<rparr>]\<rparr>"
  by (simp add: example_created_def create_def new_WikiDO_def chunkify_def ceil_div_def
      CHUNK_SIZE_MAX_def Let_def subarray_def insert_or_replace_def insert_or_replace_info_def)

section \<open>The identity guard of getFileSrc\<close>

text \<open>
  Claim C6. When the actor's bound \<open>wikiId\<close> is unset (never created, or deleted) or
  differs from the requested one, \<open>getFileSrc\<close> answers with status 400 and the body
  \<open>_|_\<close>, never with empty or default content, and leaves the actor as it was;
  otherwise it serves the cache, or reads the latest complete version (status 200), or
  fails because no complete version is stored.
\<close>

theorem getFileSrc_identity_guard:
  "(wikiId s = [] \<or> wikiId s \<noteq> w \<longrightarrow>
      (\<exists>r. getFileSrc s w = (Inr r, s) \<and> status r = 400 \<and> body r = Text ''_|_''
           \<and> response_bytes r \<noteq> []))
   \<and> (wikiId s \<noteq> [] \<and> wikiId s = w \<longrightarrow>
      (case fileSrc s of
         Some cached \<Rightarrow> getFileSrc s w = (Inr (makeStreamResponse (Inl cached)), s)
       | None \<Rightarrow>
           (case chunksInfo w (wiki_versions s) of
              Inl e \<Rightarrow> getFileSrc s w = (Inl e, s)
            | Inr info \<Rightarrow>
                (\<exists>r s'. getFileSrc s w = (Inr r, s') \<and> status r = 200
                   \<and> response_bytes r = concat (chunksCursor w (v_tsMs info) (wiki_versions s))))))
   \<and> (\<exists>r. getFileSrc new_WikiDO w = (Inr r, new_WikiDO) \<and> status r = 400)
   \<and> (\<exists>r. getFileSrc (deleteAll s) w = (Inr r, deleteAll s) \<and> status r = 400)"
proof (intro conjI impI)
  assume "wikiId s = [] \<or> wikiId s \<noteq> w"
  then show "\<exists>r. getFileSrc s w = (Inr r, s) \<and> status r = 400 \<and> body r = Text ''_|_''
           \<and> response_bytes r \<noteq> []"
    by (auto simp: getFileSrc_def response_bytes_def bytes_of_string_def)
next
  assume "wikiId s \<noteq> [] \<and> wikiId s = w"
  then show "case fileSrc s of
         Some cached \<Rightarrow> getFileSrc s w = (Inr (makeStreamResponse (Inl cached)), s)
       | None \<Rightarrow>
           (case chunksInfo w (wiki_versions s) of
              Inl e \<Rightarrow> getFileSrc s w = (Inl e, s)
            | Inr info \<Rightarrow>
                (\<exists>r s'. getFileSrc s w = (Inr r, s') \<and> status r = 200
                   \<and> response_bytes r = concat (chunksCursor w (v_tsMs info) (wiki_versions s))))"
    by (auto simp: getFileSrc_def Let_def makeStreamResponse_def response_bytes_def
        mergeArrayBuffers_concat split: option.splits sum.splits)
next
  show "\<exists>r. getFileSrc new_WikiDO w = (Inr r, new_WikiDO) \<and> status r = 400"
    by (simp add: getFileSrc_def new_WikiDO_def)
next
  show "\<exists>r. getFileSrc (deleteAll s) w = (Inr r, deleteAll s) \<and> status r = 400"
    by (simp add: getFileSrc_def deleteAll_def)
qed

theorem getFileSrc_identity_guard_witness:
  "(wikiId example_created = [] \<or> wikiId example_created \<noteq> ''w2'')
   \<and> (\<exists>r. getFileSrc example_created ''w2'' = (Inr r, example_created) \<and> status r = 400
          \<and> body r = Text ''_|_'' \<and> response_bytes r \<noteq> [])
   \<and> (wikiId example_created \<noteq> [] \<and> wikiId example_created = ''w1'')
   \<and> getFileSrc example_created ''w1'' = (Inr (makeStreamResponse (Inl [1, 2, 3])), example_created)"
  using getFileSrc_identity_guard [of example_created "''w2''"]
        getFileSrc_identity_guard [of example_created "''w1''"]
  by (simp add: example_created_eq)

section \<open>Writing a version under a fresh timestamp\<close>

lemma insert_or_replace_fresh:
  "\<forall>x\<in>set tbl. \<not> same_key x r \<Longrightarrow> insert_or_replace r tbl = tbl @ [r]"
  by (simp add: insert_or_replace_def)

lemma numbered_rows_idx:
  "x \<in> set (numbered_rows w ts i tot cs) \<Longrightarrow>
     v_wikiId x = w \<and> v_tsMs x = ts \<and> i < v_chunkIdx x \<and> v_chunkIdx x \<le> i + length cs
     \<and> v_chunksTotal x = tot \<and> v_src x \<in> set cs"
proof (induction cs arbitrary: i)
  case Nil
  then show ?case by simp
next
  case (Cons c cs)
  show ?case
  proof (cases "x \<in> set (numbered_rows w ts (i + 1) tot cs)")
    case True
    from Cons.IH [OF this] show ?thesis by simp
  next
    case False
    with Cons.prems show ?thesis by simp
  qed
qed

lemma numbered_rows_append:
  "numbered_rows w ts i tot (cs @ ds) =
     numbered_rows w ts i tot cs @ numbered_rows w ts (i + length cs) tot ds"
  by (induction cs arbitrary: i) simp_all

lemma numbered_rows_src: "map v_src (numbered_rows w ts i tot cs) = cs"
  by (induction cs arbitrary: i) simp_all

lemma numbered_rows_sorted: "sorted_wrt (<) (map v_chunkIdx (numbered_rows w ts i tot cs))"
proof (induction cs arbitrary: i)
  case Nil
  then show ?case by simp
next
  case (Cons c cs)
  have "\<forall>x\<in>set (numbered_rows w ts (i + 1) tot cs). i + 1 < v_chunkIdx x"
    using numbered_rows_idx by blast
  with Cons show ?case by simp
qed

lemma numbered_rows_sel: "filter (sel w ts) (numbered_rows w ts i tot cs) = numbered_rows w ts i tot cs"
  by (induction cs arbitrary: i) (simp_all add: sel_def)

lemma insert_chunks_numbered:
  "\<forall>x\<in>set tbl. v_wikiId x = w \<and> v_tsMs x = ts \<longrightarrow> v_chunkIdx x \<le> i \<Longrightarrow>
   insert_chunks w ts cs i n tbl = tbl @ numbered_rows w ts i (Some n) cs"
proof (induction cs arbitrary: i tbl)
  case Nil
  then show ?case by simp
next
  case (Cons c cs)
  let ?r = "\<lparr>v_wikiId = w, v_tsMs = ts, v_src = c, v_chunkIdx = i + 1, v_chunksTotal = Some n\<rparr>"
  have ins: "insert_or_replace ?r tbl = tbl @ [?r]"
    using Cons.prems by (intro insert_or_replace_fresh) (auto simp: same_key_def)
  have "\<forall>x\<in>set (tbl @ [?r]). v_wikiId x = w \<and> v_tsMs x = ts \<longrightarrow> v_chunkIdx x \<le> i + 1"
    using Cons.prems by auto
  from Cons.IH [OF this]
  have "insert_chunks w ts cs (i + 1) n (tbl @ [?r]) = (tbl @ [?r]) @ numbered_rows w ts (i + 1) (Some n) cs" .
  moreover have "insert_chunks w ts (c # cs) i n tbl = insert_chunks w ts cs (i + 1) n (tbl @ [?r])"
    by (simp only: insert_chunks.simps ins)
  ultimately show ?case by simp
qed

lemma stream_loop_flushed:
  "\<forall>x\<in>set tbl. v_wikiId x = w \<and> v_tsMs x = ts \<longrightarrow> v_chunkIdx x \<le> idx \<Longrightarrow>
   stream_loop w ts evs idx bufs tot tbl =
     (case flushed evs bufs tot of
        (None, cs) \<Rightarrow> (Inr (idx + length cs), tbl @ numbered_rows w ts idx None cs)
      | (Some e, cs) \<Rightarrow> (Inl e, tbl @ numbered_rows w ts idx None cs))"
proof (induction evs arbitrary: idx bufs tot tbl)
  case Nil
  let ?r = "\<lparr>v_wikiId = w, v_tsMs = ts, v_src = mergeArrayBuffers bufs, v_chunkIdx = idx + 1,
             v_chunksTotal = None\<rparr>"
  have "insert_or_replace ?r tbl = tbl @ [?r]"
    using Nil.prems by (intro insert_or_replace_fresh) (auto simp: same_key_def)
  then show ?case by simp
next
  case (Cons ev evs)
  show ?case
  proof (cases ev)
    case (Data v)
    show ?thesis
    proof (cases "tot + length v < CHUNK_SIZE_MAX")
      case True
      then show ?thesis using Data Cons.IH [OF Cons.prems] by simp
    next
      case False
      let ?r = "\<lparr>v_wikiId = w, v_tsMs = ts, v_src = mergeArrayBuffers (bufs @ [v]),
                 v_chunkIdx = idx + 1, v_chunksTotal = None\<rparr>"
      have ins: "insert_or_replace ?r tbl = tbl @ [?r]"
        using Cons.prems by (intro insert_or_replace_fresh) (auto simp: same_key_def)
      have "\<forall>x\<in>set (tbl @ [?r]). v_wikiId x = w \<and> v_tsMs x = ts \<longrightarrow> v_chunkIdx x \<le> idx + 1"
        using Cons.prems by auto
      from Cons.IH [OF this, of "[]" 0]
      have ih: "stream_loop w ts evs (idx + 1) [] 0 (tbl @ [?r]) =
         (case flushed evs [] 0 of
            (None, cs) \<Rightarrow> (Inr (idx + 1 + length cs), (tbl @ [?r]) @ numbered_rows w ts (idx + 1) None cs)
          | (Some e, cs) \<Rightarrow> (Inl e, (tbl @ [?r]) @ numbered_rows w ts (idx + 1) None cs))" .
      have "stream_loop w ts (ev # evs) idx bufs tot tbl = stream_loop w ts evs (idx + 1) [] 0 (tbl @ [?r])"
        using False by (simp only: Data stream_loop.simps ins if_False)
      then show ?thesis
        using False Data ih by (simp split: prod.splits option.splits)
    qed
  next
    case NotBytes
    then show ?thesis by simp
  next
    case ReadFailed
    then show ?thesis by simp
  qed
qed

lemma flushed_ok:
  "read_all evs = Inr bytes \<Longrightarrow>
   \<exists>cs. flushed evs bufs tot = (None, cs) \<and> concat cs = concat bufs @ bytes"
proof (induction evs arbitrary: bufs tot bytes)
  case Nil
  then show ?case by (simp add: mergeArrayBuffers_concat)
next
  case (Cons ev evs)
  show ?case
  proof (cases ev)
    case (Data v)
    with Cons.prems obtain bs where bs: "read_all evs = Inr bs" "bytes = v @ bs"
      by (auto split: sum.splits)
    show ?thesis
    proof (cases "tot + length v < CHUNK_SIZE_MAX")
      case True
      from Cons.IH [OF bs(1), of "bufs @ [v]" "tot + length v"] show ?thesis
        using True Data bs(2) by simp
    next
      case False
      from Cons.IH [OF bs(1), of "[]" 0] show ?thesis
        using False Data bs(2) by (auto simp: mergeArrayBuffers_concat)
    qed
  next
    case NotBytes
    with Cons.prems show ?thesis by simp
  next
    case ReadFailed
    with Cons.prems show ?thesis by simp
  qed
qed

lemma flushed_fails:
  "read_all evs = Inl e \<Longrightarrow> \<exists>e' cs. flushed evs bufs tot = (Some e', cs)"
proof (induction evs arbitrary: bufs tot)
  case Nil
  then show ?case by simp
next
  case (Cons ev evs)
  show ?case
  proof (cases ev)
    case (Data v)
    with Cons.prems have bs: "read_all evs = Inl e"
      by (auto split: sum.splits)
    show ?thesis
    proof (cases "tot + length v < CHUNK_SIZE_MAX")
      case True
      from Cons.IH [OF bs, of "bufs @ [v]" "tot + length v"] show ?thesis
        using True Data by simp
    next
      case False
      from Cons.IH [OF bs, of "[]" 0] show ?thesis
        using False Data by auto
    qed
  next
    case NotBytes
    then show ?thesis by simp
  next
    case ReadFailed
    then show ?thesis by simp
  qed
qed

lemma fresh_ts_iff: "fresh_ts w ts tbl \<longleftrightarrow> (\<forall>r\<in>set tbl. v_wikiId r = w \<longrightarrow> v_tsMs r < ts)"
  by (simp add: fresh_ts_def list_all_iff)

lemma fresh_no_rows: "fresh_ts w ts tbl \<Longrightarrow> filter (sel w ts) tbl = []"
  by (auto simp: fresh_ts_iff sel_def filter_empty_conv)

lemma upsert_ok:
  assumes rd: "read_all evs = Inr bytes" and fr: "fresh_ts w ts (wiki_versions s)"
  shows "upsert s w evs hint ts =
           (Inr (),
            s\<lparr>fileSrc := (if takes_buffered hint then Some bytes else None),
              wiki_versions := retention w (wiki_versions s @ written_rows w ts evs hint)\<rparr>)"
proof -
  have low: "\<forall>x\<in>set (wiki_versions s). v_wikiId x = w \<and> v_tsMs x = ts \<longrightarrow> v_chunkIdx x \<le> 0"
    using fr by (auto simp: fresh_ts_iff)
  show ?thesis
  proof (cases "takes_buffered hint")
    case True
    obtain cs where cs: "chunkify bytes CHUNK_SIZE_MAX = Inr cs"
      using chunkify_max [of bytes] by blast
    show ?thesis
      using True rd cs insert_chunks_numbered [OF low, of cs "length cs"]
      by (simp add: upsert_def written_rows_def)
  next
    case False
    obtain cs where cs: "flushed evs [] 0 = (None, cs)"
      using flushed_ok [OF rd, of "[]" 0] by blast
    let ?tbl = "wiki_versions s @ numbered_rows w ts 0 None cs"
    let ?t = "\<lparr>v_wikiId = w, v_tsMs = ts, v_src = [], v_chunkIdx = length cs + 1,
               v_chunksTotal = Some (length cs + 1)\<rparr>"
    have sl: "stream_loop w ts evs 0 [] 0 (wiki_versions s) = (Inr (length cs), ?tbl)"
      using stream_loop_flushed [OF low, of evs "[]" 0] cs by simp
    have "\<forall>x\<in>set ?tbl. \<not> same_key x ?t"
    proof
      fix x
      assume "x \<in> set ?tbl"
      then consider "x \<in> set (wiki_versions s)" | "x \<in> set (numbered_rows w ts 0 None cs)"
        by auto
      then show "\<not> same_key x ?t"
      proof cases
        case 1
        with low show ?thesis by (auto simp: same_key_def)
      next
        case 2
        from numbered_rows_idx [OF this] show ?thesis by (simp add: same_key_def)
      qed
    qed
    then have ins: "insert_or_replace ?t ?tbl = ?tbl @ [?t]"
      by (rule insert_or_replace_fresh)
    show ?thesis
      using False sl ins cs by (simp add: upsert_def written_rows_def)
  qed
qed

lemma upsert_fails:
  assumes rd: "read_all evs = Inl e" and fr: "fresh_ts w ts (wiki_versions s)"
  shows "\<exists>e' cs. upsert s w evs hint ts =
           (Inl e', s\<lparr>fileSrc := None,
                      wiki_versions := wiki_versions s @ numbered_rows w ts 0 None cs\<rparr>)"
proof (cases "takes_buffered hint")
  case True
  have "upsert s w evs hint ts =
          (Inl e, s\<lparr>fileSrc := None, wiki_versions := wiki_versions s @ numbered_rows w ts 0 None []\<rparr>)"
    using True rd by (simp add: upsert_def)
  then show ?thesis by blast
next
  case False
  have low: "\<forall>x\<in>set (wiki_versions s). v_wikiId x = w \<and> v_tsMs x = ts \<longrightarrow> v_chunkIdx x \<le> 0"
    using fr by (auto simp: fresh_ts_iff)
  obtain e' cs where cs: "flushed evs [] 0 = (Some e', cs)"
    using flushed_fails [OF rd, of "[]" 0] by blast
  have "stream_loop w ts evs 0 [] 0 (wiki_versions s)
          = (Inl e', wiki_versions s @ numbered_rows w ts 0 None cs)"
    using stream_loop_flushed [OF low, of evs "[]" 0] cs by simp
  then have "upsert s w evs hint ts =
          (Inl e', s\<lparr>fileSrc := None, wiki_versions := wiki_versions s @ numbered_rows w ts 0 None cs\<rparr>)"
    using False by (simp add: upsert_def)
  then show ?thesis by blast
qed

section \<open>Retention and the read queries\<close>

lemma retention_cases:
  "retention w tbl = tbl \<or>
   (\<exists>c\<in>set (map v_tsMs (complete_rows w tbl)).
      retention w tbl = filter (\<lambda>r. \<not> (v_wikiId r = w \<and> v_tsMs r < c)) tbl)"
proof (cases "length (complete_tss w RETAINED_VERSIONS_NUM tbl) < RETAINED_VERSIONS_NUM")
  case True
  then show ?thesis by (simp add: retention_def)
next
  case False
  let ?tss = "complete_tss w RETAINED_VERSIONS_NUM tbl"
  from False have ne: "?tss \<noteq> []" by (auto simp: RETAINED_VERSIONS_NUM_def)
  then have "last ?tss \<in> set ?tss" by simp
  also have "set ?tss \<subseteq> set (rev (sort (remdups (map v_tsMs (complete_rows w tbl)))))"
    unfolding complete_tss_def by (rule set_take_subset)
  finally have "last ?tss \<in> set (map v_tsMs (complete_rows w tbl))" by simp
  moreover have "retention w tbl = filter (\<lambda>r. \<not> (v_wikiId r = w \<and> v_tsMs r < last ?tss)) tbl"
    using False by (simp add: retention_def)
  ultimately show ?thesis by blast
qed

lemma retention_subset: "set (retention w tbl) \<subseteq> set tbl"
  using retention_cases [of w tbl] by auto

text \<open>Rows of the latest complete timestamp survive the retention step.\<close>

lemma retention_keeps_latest:
  assumes top: "\<forall>r\<in>set (complete_rows w tbl). v_tsMs r \<le> ts"
  shows "filter (sel w ts) (retention w tbl) = filter (sel w ts) tbl"
proof -
  from retention_cases [of w tbl] show ?thesis
  proof
    assume "retention w tbl = tbl"
    then show ?thesis by simp
  next
    assume "\<exists>c\<in>set (map v_tsMs (complete_rows w tbl)).
      retention w tbl = filter (\<lambda>r. \<not> (v_wikiId r = w \<and> v_tsMs r < c)) tbl"
    then obtain c where c: "c \<in> set (map v_tsMs (complete_rows w tbl))"
      and r: "retention w tbl = filter (\<lambda>r. \<not> (v_wikiId r = w \<and> v_tsMs r < c)) tbl"
      by blast
    from c top have "c \<le> ts" by auto
    then have "\<And>x. sel w ts x \<Longrightarrow> \<not> (v_wikiId x = w \<and> v_tsMs x < c)"
      by (auto simp: sel_def)
    then have "filter (sel w ts) (filter (\<lambda>r. \<not> (v_wikiId r = w \<and> v_tsMs r < c)) tbl)
                 = filter (sel w ts) tbl"
      by (auto intro: filter_cong simp: filter_filter)
    with r show ?thesis by simp
  qed
qed

lemma sorted_last_max:
  "sorted (map f xs) \<Longrightarrow> x \<in> set xs \<Longrightarrow> f x \<le> f (last xs)"
proof (induction xs)
  case Nil
  then show ?case by simp
next
  case (Cons y ys)
  then show ?case by (cases "ys = []") auto
qed

lemma chunksInfo_empty: "complete_rows w tbl = [] \<Longrightarrow> chunksInfo w tbl = Inl NoRows"
  by (simp add: chunksInfo_def)

lemma chunksInfo_pick:
  assumes ne: "complete_rows w tbl \<noteq> []"
  shows "\<exists>info. chunksInfo w tbl = Inr info \<and> info \<in> set (complete_rows w tbl)
           \<and> (\<forall>r\<in>set (complete_rows w tbl).
                 (v_tsMs r, v_chunkIdx r) \<le> (v_tsMs info, v_chunkIdx info))"
proof -
  let ?key = "\<lambda>r. (v_tsMs r, v_chunkIdx r)"
  let ?xs = "sort_key ?key (complete_rows w tbl)"
  from ne have xne: "?xs \<noteq> []" by (metis length_sort length_0_conv)
  then have rv: "rev ?xs = last ?xs # rev (butlast ?xs)"
    by (metis append_butlast_last_id rev.simps(2) rev_append rev_rev_ident append_Nil rev.simps(1) append_Cons)
  have info: "chunksInfo w tbl = Inr (last ?xs)"
    unfolding chunksInfo_def by (simp add: rv)
  have mem: "last ?xs \<in> set (complete_rows w tbl)"
    using xne last_in_set [of ?xs] by simp
  have "\<forall>r\<in>set (complete_rows w tbl). ?key r \<le> ?key (last ?xs)"
  proof
    fix r
    assume "r \<in> set (complete_rows w tbl)"
    then have "r \<in> set ?xs" by simp
    moreover have "sorted (map ?key ?xs)" by (rule sorted_sort_key)
    ultimately show "?key r \<le> ?key (last ?xs)" by (rule sorted_last_max [rotated])
  qed
  with info mem show ?thesis by blast
qed

lemma chunksInfo_latest:
  assumes ne: "complete_rows w tbl \<noteq> []"
  shows "\<exists>info. chunksInfo w tbl = Inr info \<and> info \<in> set (complete_rows w tbl)
           \<and> (\<forall>r\<in>set (complete_rows w tbl). v_tsMs r \<le> v_tsMs info)"
proof -
  from chunksInfo_pick [OF ne] obtain info where
    i: "chunksInfo w tbl = Inr info" "info \<in> set (complete_rows w tbl)"
      "\<forall>r\<in>set (complete_rows w tbl). (v_tsMs r, v_chunkIdx r) \<le> (v_tsMs info, v_chunkIdx info)"
    by blast
  from i(3) have "\<forall>r\<in>set (complete_rows w tbl). v_tsMs r \<le> v_tsMs info"
    by (auto simp: less_eq_prod_def)
  with i(1,2) show ?thesis by blast
qed

text \<open>Among the complete rows of the latest timestamp, the one with the greatest index.\<close>

lemma chunksInfo_greatest_idx:
  assumes "chunksInfo w tbl = Inr info" "r \<in> set (complete_rows w tbl)" "v_tsMs r = v_tsMs info"
  shows "v_chunkIdx r \<le> v_chunkIdx info"
proof -
  from assms(1) have "complete_rows w tbl \<noteq> []" by (auto simp: chunksInfo_def)
  from chunksInfo_pick [OF this] assms(1)
  have "\<forall>r\<in>set (complete_rows w tbl). (v_tsMs r, v_chunkIdx r) \<le> (v_tsMs info, v_chunkIdx info)"
    by auto
  with assms(2,3) show ?thesis by (auto simp: less_eq_prod_def)
qed

text \<open>
  Reading back a version appended under a fresh timestamp: the rows \<open>rows\<close> all belong to
  \<open>(w, ts)\<close>, are in ascending \<open>chunkIdx\<close> order, and one of them is complete.
\<close>

lemma read_after_append:
  assumes fr: "fresh_ts w ts tbl"
    and rows: "\<forall>r\<in>set rows. sel w ts r"
    and srt: "sorted_wrt (<) (map v_chunkIdx rows)"
    and cpl: "\<exists>r\<in>set rows. is_complete w r"
  shows "\<exists>info. chunksInfo w (retention w (tbl @ rows)) = Inr info \<and> v_tsMs info = ts
           \<and> info \<in> set rows \<and> is_complete w info
           \<and> chunksCursor w ts (retention w (tbl @ rows)) = map v_src rows"
proof -
  let ?all = "tbl @ rows"
  let ?ret = "retention w ?all"
  have le: "\<forall>r\<in>set ?all. v_wikiId r = w \<longrightarrow> v_tsMs r \<le> ts"
    using fr rows by (auto simp: fresh_ts_iff sel_def dest: less_imp_le)
  then have top: "\<forall>r\<in>set (complete_rows w ?all). v_tsMs r \<le> ts"
    by (auto simp: complete_rows_def is_complete_def)
  have keep: "filter (sel w ts) ?ret = rows"
    using retention_keeps_latest [OF top] fresh_no_rows [OF fr] rows
    by (simp add: filter_id_conv)
  from cpl obtain r0 where r0: "r0 \<in> set rows" "is_complete w r0" by blast
  with rows have "sel w ts r0" by blast
  with r0 keep have "r0 \<in> set (filter (sel w ts) ?ret)" by simp
  then have r0ret: "r0 \<in> set ?ret" by simp
  with r0 have ne: "complete_rows w ?ret \<noteq> []"
    by (auto simp: complete_rows_def filter_empty_conv)
  from chunksInfo_latest [OF ne] obtain info where
    info: "chunksInfo w ?ret = Inr info" "info \<in> set (complete_rows w ?ret)"
      "\<forall>r\<in>set (complete_rows w ?ret). v_tsMs r \<le> v_tsMs info"
    by blast
  from info(2) have iret: "info \<in> set ?ret" and ic: "is_complete w info"
    by (simp_all add: complete_rows_def)
  from iret retention_subset have iall: "info \<in> set ?all" by blast
  from ic have iw: "v_wikiId info = w" by (simp add: is_complete_def)
  from r0ret r0 have "r0 \<in> set (complete_rows w ?ret)" by (simp add: complete_rows_def)
  with info(3) have "v_tsMs r0 \<le> v_tsMs info" by blast
  moreover from \<open>sel w ts r0\<close> have "v_tsMs r0 = ts" by (simp add: sel_def)
  moreover from le iall iw have "v_tsMs info \<le> ts" by blast
  ultimately have its: "v_tsMs info = ts" by simp
  with iw iret have "info \<in> set (filter (sel w ts) ?ret)" by (simp add: sel_def)
  with keep have irows: "info \<in> set rows" by simp
  have "sorted (map v_chunkIdx rows)"
    using srt by (rule sorted_wrt_mono_rel [rotated]) simp
  then have "sort_key v_chunkIdx rows = rows" by (rule sort_key_id_if_sorted)
  moreover have "filter (\<lambda>r. v_wikiId r = w \<and> v_tsMs r = ts) ?ret = filter (sel w ts) ?ret"
    by (simp add: sel_def [abs_def])
  ultimately have "chunksCursor w ts ?ret = map v_src rows"
    by (simp add: chunksCursor_def keep)
  with info(1) its irows ic show ?thesis by blast
qed

section \<open>Round trip\<close>

lemma numbered_rows_complete_iff:
  "(\<exists>r\<in>set (numbered_rows w ts 0 (Some (length cs)) cs). is_complete w r) \<longleftrightarrow> cs \<noteq> []"
proof
  assume "\<exists>r\<in>set (numbered_rows w ts 0 (Some (length cs)) cs). is_complete w r"
  then show "cs \<noteq> []" by auto
next
  assume ne: "cs \<noteq> []"
  then obtain ds d where cs: "cs = ds @ [d]" by (metis append_butlast_last_id)
  have "\<lparr>v_wikiId = w, v_tsMs = ts, v_src = d, v_chunkIdx = length ds + 1,
         v_chunksTotal = Some (length cs)\<rparr> \<in> set (numbered_rows w ts 0 (Some (length cs)) cs)"
    by (subst (2) cs) (simp add: numbered_rows_append)
  moreover have "is_complete w \<lparr>v_wikiId = w, v_tsMs = ts, v_src = d, v_chunkIdx = length ds + 1,
         v_chunksTotal = Some (length cs)\<rparr>"
    by (simp add: is_complete_def cs)
  ultimately show "\<exists>r\<in>set (numbered_rows w ts 0 (Some (length cs)) cs). is_complete w r"
    by blast
qed

lemma chunkify_nonempty:
  "chunkify bytes CHUNK_SIZE_MAX = Inr cs \<Longrightarrow> bytes \<noteq> [] \<Longrightarrow> cs \<noteq> []"
  using chunkify_max [of bytes] by auto

lemma written_rows_sel: "r \<in> set (written_rows w ts evs hint) \<Longrightarrow> sel w ts r"
  by (auto simp: written_rows_def sel_def Let_def dest: numbered_rows_idx split: sum.splits if_splits)

lemma written_rows_sorted: "sorted_wrt (<) (map v_chunkIdx (written_rows w ts evs hint))"
proof -
  have "\<And>cs. sorted_wrt (<) (map v_chunkIdx (numbered_rows w ts 0 None cs) @ [length cs + 1])"
  proof -
    fix cs :: "byte list list"
    have "\<forall>x\<in>set (numbered_rows w ts 0 None cs). v_chunkIdx x < length cs + 1"
      using numbered_rows_idx [of _ w ts 0 None cs] by fastforce
    then show "sorted_wrt (<) (map v_chunkIdx (numbered_rows w ts 0 None cs) @ [length cs + 1])"
      by (simp add: sorted_wrt_append numbered_rows_sorted)
  qed
  then show ?thesis
    by (simp add: written_rows_def Let_def numbered_rows_sorted split: sum.splits)
qed

lemma written_rows_content:
  "read_all evs = Inr bytes \<Longrightarrow> concat (map v_src (written_rows w ts evs hint)) = bytes"
proof (cases "takes_buffered hint")
  case True
  assume rd: "read_all evs = Inr bytes"
  from chunkify_max [of bytes] obtain cs where "chunkify bytes CHUNK_SIZE_MAX = Inr cs" "concat cs = bytes"
    by blast
  then show ?thesis using True rd by (simp add: written_rows_def numbered_rows_src)
next
  case False
  assume rd: "read_all evs = Inr bytes"
  from flushed_ok [OF rd, of "[]" 0] obtain cs where "flushed evs [] 0 = (None, cs)" "concat cs = bytes"
    by auto
  then show ?thesis using False by (simp add: written_rows_def numbered_rows_src)
qed

lemma written_rows_complete:
  assumes rd: "read_all evs = Inr bytes" and ne: "\<not> (takes_buffered hint \<and> bytes = [])"
  shows "\<exists>r\<in>set (written_rows w ts evs hint). is_complete w r"
proof (cases "takes_buffered hint")
  case True
  from chunkify_max [of bytes] obtain cs where cs: "chunkify bytes CHUNK_SIZE_MAX = Inr cs"
    by blast
  with True ne have "cs \<noteq> []" by (auto dest: chunkify_nonempty)
  then have "\<exists>r\<in>set (numbered_rows w ts 0 (Some (length cs)) cs). is_complete w r"
    by (simp add: numbered_rows_complete_iff)
  then show ?thesis using True rd cs by (simp add: written_rows_def)
next
  case False
  then show ?thesis by (simp add: written_rows_def Let_def is_complete_def)
qed

text \<open>The cold read path of a bound actor, in terms of the two queries.\<close>

lemma getFileSrc_cold:
  assumes "wikiId s = w" "w \<noteq> []" "fileSrc s = None" "chunksInfo w (wiki_versions s) = Inr info"
  shows "\<exists>r s'. getFileSrc s w = (Inr r, s') \<and> status r = 200
           \<and> response_bytes r = concat (chunksCursor w (v_tsMs info) (wiki_versions s))"
  using assms
  by (auto simp: getFileSrc_def Let_def makeStreamResponse_def response_bytes_def
      mergeArrayBuffers_concat)

lemma roundtrip_cold:
  assumes bound: "wikiId s = w" "w \<noteq> []"
    and fr: "fresh_ts w ts (wiki_versions s)"
    and rd: "read_all evs = Inr bytes"
    and ne: "\<not> (takes_buffered hint \<and> bytes = [])"
  shows "\<exists>r s'. getFileSrc ((snd (upsert s w evs hint ts))\<lparr>fileSrc := None\<rparr>) w = (Inr r, s')
           \<and> status r = 200 \<and> response_bytes r = bytes"
proof -
  let ?rows = "written_rows w ts evs hint"
  let ?tbl = "retention w (wiki_versions s @ ?rows)"
  have "\<exists>info. chunksInfo w ?tbl = Inr info \<and> v_tsMs info = ts \<and> info \<in> set ?rows
          \<and> is_complete w info \<and> chunksCursor w ts ?tbl = map v_src ?rows"
    by (rule read_after_append [OF fr])
       (use written_rows_sel written_rows_sorted written_rows_complete [OF rd ne] in blast)+
  then obtain info where info: "chunksInfo w ?tbl = Inr info" "v_tsMs info = ts"
    "chunksCursor w ts ?tbl = map v_src ?rows" by blast
  let ?s = "(snd (upsert s w evs hint ts))\<lparr>fileSrc := None\<rparr>"
  have tb: "wiki_versions ?s = ?tbl" and b: "wikiId ?s = w" "fileSrc ?s = None"
    using upsert_ok [OF rd fr, of hint] bound by simp_all
  from getFileSrc_cold [OF b(1) bound(2) b(2), of info] info tb
  show ?thesis by (simp add: written_rows_content [OF rd])
qed

lemma example_created_fresh: "fresh_ts ''w1'' 2000 (wiki_versions example_created)"
  by (simp add: example_created_eq fresh_ts_def)

text \<open>
  Claim C1. For every byte sequence \<open>B\<close> (of any length: 0, 1, 1,500,000, 15,000,000,
  ...) that the source stream delivers, an upsert to a created document, stamped later
  than the rows already stored for it, succeeds, and \<open>getFileSrc\<close> for the same id then
  answers 200 with a body whose concatenation is exactly \<open>B\<close>, on the buffered and on the
  streaming path alike. The stored chunk payloads of the new version, read back in
  \<open>chunkIdx\<close> order without the cache (the zero-length terminal row of the streaming
  path included), concatenate to \<open>B\<close> as well, except that the buffered path stores no
  row at all for an empty \<open>B\<close>.
\<close>

theorem upsert_getFileSrc_roundtrip:
  assumes bound: "wikiId s = w" "w \<noteq> []"
    and fr: "fresh_ts w ts (wiki_versions s)"
    and rd: "read_all evs = Inr B"
  shows "fst (upsert s w evs hint ts) = Inr ()
         \<and> (\<exists>r s'. getFileSrc (snd (upsert s w evs hint ts)) w = (Inr r, s')
                \<and> status r = 200 \<and> response_bytes r = B)
         \<and> (takes_buffered hint \<and> B = []
            \<or> (\<exists>r s'. getFileSrc ((snd (upsert s w evs hint ts))\<lparr>fileSrc := None\<rparr>) w = (Inr r, s')
                  \<and> status r = 200 \<and> response_bytes r = B))"
proof (intro conjI)
  show "fst (upsert s w evs hint ts) = Inr ()"
    using upsert_ok [OF rd fr, of hint] by simp
next
  show "\<exists>r s'. getFileSrc (snd (upsert s w evs hint ts)) w = (Inr r, s')
                \<and> status r = 200 \<and> response_bytes r = B"
  proof (cases "takes_buffered hint")
    case True
    let ?s = "snd (upsert s w evs hint ts)"
    have "fileSrc ?s = Some B" "wikiId ?s = w"
      using upsert_ok [OF rd fr, of hint] True bound by simp_all
    then have "getFileSrc ?s w = (Inr (makeStreamResponse (Inl B)), ?s)"
      using bound by (simp add: getFileSrc_def)
    then show ?thesis by (simp add: makeStreamResponse_def response_bytes_def)
  next
    case False
    then have "\<not> (takes_buffered hint \<and> B = [])" by simp
    from roundtrip_cold [OF bound fr rd this]
    have "\<exists>r s'. getFileSrc ((snd (upsert s w evs hint ts))\<lparr>fileSrc := None\<rparr>) w = (Inr r, s')
           \<and> status r = 200 \<and> response_bytes r = B" .
    moreover have "(snd (upsert s w evs hint ts))\<lparr>fileSrc := None\<rparr> = snd (upsert s w evs hint ts)"
      using upsert_ok [OF rd fr, of hint] False by simp
    ultimately show ?thesis by simp
  qed
next
  show "takes_buffered hint \<and> B = []
            \<or> (\<exists>r s'. getFileSrc ((snd (upsert s w evs hint ts))\<lparr>fileSrc := None\<rparr>) w = (Inr r, s')
                  \<and> status r = 200 \<and> response_bytes r = B)"
    using roundtrip_cold [OF bound fr rd, of hint] by blast
qed

theorem upsert_getFileSrc_roundtrip_witness:
  "wikiId example_created = ''w1'' \<and> ''w1'' \<noteq> []
   \<and> fresh_ts ''w1'' 2000 (wiki_versions example_created)
   \<and> read_all [Data (replicate 1500000 7)] = Inr (replicate 1500000 7)
   \<and> fst (upsert example_created ''w1'' [Data (replicate 1500000 7)] None 2000) = Inr ()
   \<and> (\<exists>r s'. getFileSrc (snd (upsert example_created ''w1'' [Data (replicate 1500000 7)] None 2000)) ''w1''
                = (Inr r, s')
          \<and> status r = 200 \<and> response_bytes r = replicate 1500000 7)"
proof -
  have b: "wikiId example_created = ''w1''" "''w1'' \<noteq> []"
    by (simp_all add: example_created_eq)
  have rd: "read_all [Data (replicate 1500000 7)] = Inr (replicate 1500000 7)"
    by simp
  from upsert_getFileSrc_roundtrip [OF b example_created_fresh rd, of None]
  show ?thesis using b example_created_fresh rd by blast
qed

section \<open>Only complete versions are served\<close>

lemma has_terminal_iff:
  "has_terminal w ts tbl \<longleftrightarrow> (\<exists>r\<in>set (complete_rows w tbl). v_tsMs r = ts)"
  by (auto simp: has_terminal_def list_ex_iff complete_rows_def)

lemma complete_rows_append_partial:
  "complete_rows w (tbl @ numbered_rows w' ts i None cs) = complete_rows w tbl"
proof -
  have "filter (is_complete w) (numbered_rows w' ts i None cs) = []"
    by (auto simp: filter_empty_conv is_complete_def dest: numbered_rows_idx)
  then show ?thesis by (simp add: complete_rows_def)
qed

lemma chunksCursor_append_other:
  assumes "T \<noteq> ts"
  shows "chunksCursor w T (tbl @ numbered_rows w ts i tot cs) = chunksCursor w T tbl"
proof -
  have "filter (\<lambda>r. v_wikiId r = w \<and> v_tsMs r = T) (numbered_rows w ts i tot cs) = []"
    using assms by (auto simp: filter_empty_conv dest: numbered_rows_idx)
  then show ?thesis by (simp add: chunksCursor_def)
qed

lemma getFileSrc_cold_eq:
  assumes "wikiId s = w" "w \<noteq> []" "fileSrc s = None"
  shows "fst (getFileSrc s w) =
           (case chunksInfo w (wiki_versions s) of
              Inl e \<Rightarrow> Inl e
            | Inr info \<Rightarrow>
                (let cursor = chunksCursor w (v_tsMs info) (wiki_versions s) in
                 if total_of info * CHUNK_SIZE_MAX < BYTE_SIZE_ATONCE_THRESHOLD
                 then Inr (makeStreamResponse (Inl (mergeArrayBuffers cursor)))
                 else Inr (makeStreamResponse (Inr cursor))))"
  using assms by (simp add: getFileSrc_def Let_def split: sum.splits)

lemma failed_upsert_invisible:
  assumes bound: "wikiId s = w" "w \<noteq> []"
    and fr: "fresh_ts w ts (wiki_versions s)"
    and rd: "read_all evs = Inl e"
  shows "(\<exists>e'. fst (upsert s w evs hint ts) = Inl e')
         \<and> fileSrc (snd (upsert s w evs hint ts)) = None
         \<and> complete_rows w (wiki_versions (snd (upsert s w evs hint ts)))
             = complete_rows w (wiki_versions s)
         \<and> fst (getFileSrc (snd (upsert s w evs hint ts)) w) = fst (getFileSrc (s\<lparr>fileSrc := None\<rparr>) w)"
proof -
  from upsert_fails [OF rd fr, of hint] obtain e' cs where
    u: "upsert s w evs hint ts =
          (Inl e', s\<lparr>fileSrc := None, wiki_versions := wiki_versions s @ numbered_rows w ts 0 None cs\<rparr>)"
    by blast
  let ?tbl = "wiki_versions s"
  let ?s1 = "s\<lparr>fileSrc := None, wiki_versions := ?tbl @ numbered_rows w ts 0 None cs\<rparr>"
  let ?s0 = "s\<lparr>fileSrc := None\<rparr>"
  have cr: "complete_rows w (?tbl @ numbered_rows w ts 0 None cs) = complete_rows w ?tbl"
    by (rule complete_rows_append_partial)
  then have ci: "chunksInfo w (?tbl @ numbered_rows w ts 0 None cs) = chunksInfo w ?tbl"
    by (simp add: chunksInfo_def)
  have cur: "\<And>info. chunksInfo w ?tbl = Inr info \<Longrightarrow>
      chunksCursor w (v_tsMs info) (?tbl @ numbered_rows w ts 0 None cs)
        = chunksCursor w (v_tsMs info) ?tbl"
  proof -
    fix info
    assume i: "chunksInfo w ?tbl = Inr info"
    then have "complete_rows w ?tbl \<noteq> []" by (auto simp: chunksInfo_def)
    from chunksInfo_latest [OF this] i have "info \<in> set (complete_rows w ?tbl)" by auto
    then have "info \<in> set ?tbl" "v_wikiId info = w"
      by (simp_all add: complete_rows_def is_complete_def)
    with fr have "v_tsMs info < ts" by (auto simp: fresh_ts_iff)
    then have "v_tsMs info \<noteq> ts" by simp
    then show "chunksCursor w (v_tsMs info) (?tbl @ numbered_rows w ts 0 None cs)
        = chunksCursor w (v_tsMs info) ?tbl"
      by (rule chunksCursor_append_other)
  qed
  have g1: "fst (getFileSrc ?s1 w) = fst (getFileSrc ?s0 w)"
  proof (cases "chunksInfo w ?tbl")
    case (Inl err)
    then show ?thesis
      using bound ci by (simp add: getFileSrc_cold_eq)
  next
    case (Inr info)
    then show ?thesis
      using bound ci cur [OF Inr] by (simp add: getFileSrc_cold_eq)
  qed
  show ?thesis using u cr g1 by simp
qed

lemma example_restarted_eq:
  "example_restarted =
     \<lparr>fileSrc = None, wikiId = ''w1'', tenantId = ''T1'',
      wiki_info = [\<lparr>i_wikiId = ''w1'', i_tenantId = ''T1'', i_name = ''Notes'', i_wikiType = ''tw5''\<rparr>],
      wiki_versions = [\<lparr>v_wikiId = ''w1'', v_tsMs = 1000, v_src = [1, 2, 3], v_chunkIdx = 1,
                         v_chunksTotal = Some 1\<rparr>]\<rparr>"
  by (simp add: example_restarted_def example_created_eq)

lemma example_restarted_read:
  "fst (getFileSrc example_restarted ''w1'') = Inr (makeStreamResponse (Inl [1, 2, 3]))"
  by (simp add: example_restarted_eq getFileSrc_def chunksInfo_def complete_rows_def
      is_complete_def chunksCursor_def total_of_def CHUNK_SIZE_MAX_def
      BYTE_SIZE_ATONCE_THRESHOLD_def mergeArrayBuffers_concat Let_def)

text \<open>
  Claim C2. Without the in-memory cache, \<open>getFileSrc\<close> of a bound actor serves exactly
  the chunk rows of the most recent timestamp for which a row with
  \<open>chunkIdx = chunksTotal\<close> exists, and fails when there is none; so rows whose timestamp
  has no such terminal row are in no response. An ingest that stops before its terminal
  row is written (the source faults; its timestamp is later than the stored rows) fails,
  adds no complete version, and the read that follows answers what the read of the
  previous state answers: the previous complete version.
\<close>

theorem complete_versions_only:
  assumes bound: "wikiId s = w" "w \<noteq> []"
  shows "(fileSrc s = None \<longrightarrow>
            (case fst (getFileSrc s w) of
               Inl err \<Rightarrow> err = NoRows \<and> (\<forall>T. \<not> has_terminal w T (wiki_versions s))
             | Inr r \<Rightarrow>
                 (\<exists>T. has_terminal w T (wiki_versions s)
                    \<and> (\<forall>T'. has_terminal w T' (wiki_versions s) \<longrightarrow> T' \<le> T)
                    \<and> status r = 200
                    \<and> response_bytes r = concat (chunksCursor w T (wiki_versions s)))))
         \<and> (fresh_ts w ts (wiki_versions s) \<and> read_all evs = Inl e \<longrightarrow>
              (\<exists>e'. fst (upsert s w evs hint ts) = Inl e')
              \<and> fileSrc (snd (upsert s w evs hint ts)) = None
              \<and> (\<forall>T. has_terminal w T (wiki_versions (snd (upsert s w evs hint ts)))
                      = has_terminal w T (wiki_versions s))
              \<and> fst (getFileSrc (snd (upsert s w evs hint ts)) w)
                  = fst (getFileSrc (s\<lparr>fileSrc := None\<rparr>) w))"
proof (intro conjI impI)
  assume cold: "fileSrc s = None"
  show "case fst (getFileSrc s w) of
               Inl err \<Rightarrow> err = NoRows \<and> (\<forall>T. \<not> has_terminal w T (wiki_versions s))
             | Inr r \<Rightarrow>
                 (\<exists>T. has_terminal w T (wiki_versions s)
                    \<and> (\<forall>T'. has_terminal w T' (wiki_versions s) \<longrightarrow> T' \<le> T)
                    \<and> status r = 200
                    \<and> response_bytes r = concat (chunksCursor w T (wiki_versions s)))"
  proof (cases "complete_rows w (wiki_versions s) = []")
    case True
    then show ?thesis
      using bound cold by (simp add: getFileSrc_cold_eq chunksInfo_empty has_terminal_iff)
  next
    case False
    from chunksInfo_latest [OF False] obtain info where
      info: "chunksInfo w (wiki_versions s) = Inr info" "info \<in> set (complete_rows w (wiki_versions s))"
        "\<forall>r\<in>set (complete_rows w (wiki_versions s)). v_tsMs r \<le> v_tsMs info"
      by blast
    from getFileSrc_cold [OF bound cold info(1)] obtain r s' where
      r: "getFileSrc s w = (Inr r, s')" "status r = 200"
        "response_bytes r = concat (chunksCursor w (v_tsMs info) (wiki_versions s))"
      by blast
    have "has_terminal w (v_tsMs info) (wiki_versions s)"
      using info(2) by (auto simp: has_terminal_iff)
    moreover have "\<forall>T'. has_terminal w T' (wiki_versions s) \<longrightarrow> T' \<le> v_tsMs info"
      using info(3) by (auto simp: has_terminal_iff)
    ultimately show ?thesis using r by auto
  qed
next
  assume h: "fresh_ts w ts (wiki_versions s) \<and> read_all evs = Inl e"
  then have fr: "fresh_ts w ts (wiki_versions s)" and rd: "read_all evs = Inl e" by simp_all
  note f = failed_upsert_invisible [OF bound fr rd, of hint]
  show "\<exists>e'. fst (upsert s w evs hint ts) = Inl e'" using f by blast
  show "fileSrc (snd (upsert s w evs hint ts)) = None" using f by blast
  show "\<forall>T. has_terminal w T (wiki_versions (snd (upsert s w evs hint ts)))
                      = has_terminal w T (wiki_versions s)"
    using f by (simp add: has_terminal_iff)
  show "fst (getFileSrc (snd (upsert s w evs hint ts)) w) = fst (getFileSrc (s\<lparr>fileSrc := None\<rparr>) w)"
    using f by blast
qed

theorem complete_versions_only_witness:
  "wikiId example_restarted = ''w1'' \<and> ''w1'' \<noteq> [] \<and> fileSrc example_restarted = None
   \<and> fresh_ts ''w1'' 2000 (wiki_versions example_restarted)
   \<and> read_all [Data (replicate 1500000 7), ReadFailed] = Inl StreamError
   \<and> wiki_versions (snd (upsert example_restarted ''w1'' [Data (replicate 1500000 7), ReadFailed] None 2000))
       = wiki_versions example_restarted
           @ [\<lparr>v_wikiId = ''w1'', v_tsMs = 2000, v_src = replicate 1500000 7, v_chunkIdx = 1,
               v_chunksTotal = None\<rparr>]
   \<and> fst (getFileSrc (snd (upsert example_restarted ''w1'' [Data (replicate 1500000 7), ReadFailed] None 2000)) ''w1'')
       = Inr (makeStreamResponse (Inl [1, 2, 3]))"
proof -
  have b: "wikiId example_restarted = ''w1''" "''w1'' \<noteq> []" and c: "fileSrc example_restarted = None"
    by (simp_all add: example_restarted_eq)
  have fr: "fresh_ts ''w1'' 2000 (wiki_versions example_restarted)"
    by (simp add: example_restarted_eq fresh_ts_def)
  have rd: "read_all [Data (replicate 1500000 7), ReadFailed] = Inl StreamError"
    by simp
  have rows: "wiki_versions (snd (upsert example_restarted ''w1'' [Data (replicate 1500000 7), ReadFailed] None 2000))
       = wiki_versions example_restarted
           @ [\<lparr>v_wikiId = ''w1'', v_tsMs = 2000, v_src = replicate 1500000 7, v_chunkIdx = 1,
               v_chunksTotal = None\<rparr>]"
    by (simp add: example_restarted_eq upsert_def takes_buffered_def CHUNK_SIZE_MAX_def
        mergeArrayBuffers_concat insert_or_replace_def same_key_def)
  have same: "example_restarted\<lparr>fileSrc := None\<rparr> = example_restarted"
    by (simp add: example_restarted_def)
  from complete_versions_only [OF b, of 2000 "[Data (replicate 1500000 7), ReadFailed]" StreamError None]
  have "fst (getFileSrc (snd (upsert example_restarted ''w1'' [Data (replicate 1500000 7), ReadFailed] None 2000)) ''w1'')
          = fst (getFileSrc example_restarted ''w1'')"
    using fr rd same by simp
  then show ?thesis using b c fr rd rows example_restarted_read by simp
qed

section \<open>The delivery decision of the read path\<close>

lemma example_3mb_eq:
  "example_3mb =
     \<lparr>fileSrc = None, wikiId = ''w1'', tenantId = ''T1'',
      wiki_info = [\<lparr>i_wikiId = ''w1'', i_tenantId = ''T1'', i_name = ''Notes'', i_wikiType = ''tw5''\<rparr>],
      wiki_versions =
        [\<lparr>v_wikiId = ''w1'', v_tsMs = 1000, v_src = [1, 2, 3], v_chunkIdx = 1, v_chunksTotal = Some 1\<rparr>,
         \<lparr>v_wikiId = ''w1'', v_tsMs = 2000, v_src = replicate 1500000 7, v_chunkIdx = 1,
            v_chunksTotal = None\<rparr>,
         \<lparr>v_wikiId = ''w1'', v_tsMs = 2000, v_src = replicate 1500000 7, v_chunkIdx = 2,
            v_chunksTotal = None\<rparr>,
         \<lparr>v_wikiId = ''w1'', v_tsMs = 2000, v_src = [], v_chunkIdx = 3, v_chunksTotal = None\<rparr>,
         \<lparr>v_wikiId = ''w1'', v_tsMs = 2000, v_src = [], v_chunkIdx = 4, v_chunksTotal = Some 4\<rparr>]\<rparr>"
  by (simp add: example_3mb_def example_created_eq upsert_def takes_buffered_def CHUNK_SIZE_MAX_def
      mergeArrayBuffers_concat insert_or_replace_def same_key_def retention_def complete_tss_def
      complete_rows_def is_complete_def RETAINED_VERSIONS_NUM_def)

lemma example_3mb_info:
  "chunksInfo ''w1'' (wiki_versions example_3mb) =
     Inr \<lparr>v_wikiId = ''w1'', v_tsMs = 2000, v_src = [], v_chunkIdx = 4, v_chunksTotal = Some 4\<rparr>"
  by (simp add: example_3mb_eq chunksInfo_def complete_rows_def is_complete_def)

lemma example_3mb_cursor:
  "chunksCursor ''w1'' 2000 (wiki_versions example_3mb) =
     [replicate 1500000 7, replicate 1500000 7, [], []]"
  by (simp add: example_3mb_eq chunksCursor_def)

lemma getFileSrc_delivery:
  assumes "wikiId s = w" "w \<noteq> []" "fileSrc s = None"
    and "chunksInfo w (wiki_versions s) = Inr info"
  shows "(total_of info * CHUNK_SIZE_MAX < BYTE_SIZE_ATONCE_THRESHOLD \<longleftrightarrow> total_of info \<le> 3)
         \<and> (total_of info \<le> 3 \<longrightarrow>
              getFileSrc s w =
                (Inr (makeStreamResponse
                        (Inl (concat (chunksCursor w (v_tsMs info) (wiki_versions s))))),
                 s\<lparr>fileSrc := Some (concat (chunksCursor w (v_tsMs info) (wiki_versions s)))\<rparr>))
         \<and> (3 < total_of info \<longrightarrow>
              getFileSrc s w =
                (Inr (makeStreamResponse (Inr (chunksCursor w (v_tsMs info) (wiki_versions s)))), s))"
proof -
  have eq: "total_of info * CHUNK_SIZE_MAX < BYTE_SIZE_ATONCE_THRESHOLD \<longleftrightarrow> total_of info \<le> 3"
    by (simp add: CHUNK_SIZE_MAX_def BYTE_SIZE_ATONCE_THRESHOLD_def) arith
  show ?thesis
    using assms eq by (simp add: getFileSrc_def Let_def mergeArrayBuffers_concat)
qed

lemma example_tie_eq:
  "example_tie =
     \<lparr>fileSrc = None, wikiId = ''w1'', tenantId = ''T1'',
      wiki_info = [\<lparr>i_wikiId = ''w1'', i_tenantId = ''T1'', i_name = ''Notes'', i_wikiType = ''tw5''\<rparr>],
      wiki_versions =
        [\<lparr>v_wikiId = ''w1'', v_tsMs = 1000, v_src = [1, 2, 3], v_chunkIdx = 1, v_chunksTotal = Some 1\<rparr>,
         \<lparr>v_wikiId = ''w1'', v_tsMs = 2000, v_src = replicate 1500000 7, v_chunkIdx = 2,
            v_chunksTotal = None\<rparr>,
         \<lparr>v_wikiId = ''w1'', v_tsMs = 2000, v_src = [], v_chunkIdx = 3, v_chunksTotal = None\<rparr>,
         \<lparr>v_wikiId = ''w1'', v_tsMs = 2000, v_src = [], v_chunkIdx = 4, v_chunksTotal = Some 4\<rparr>,
         \<lparr>v_wikiId = ''w1'', v_tsMs = 2000, v_src = [9, 8, 7], v_chunkIdx = 1,
            v_chunksTotal = Some 1\<rparr>]\<rparr>"
  by (simp add: example_tie_def example_3mb_eq upsert_def takes_buffered_def CHUNK_SIZE_MAX_def
      BYTE_SIZE_ATONCE_THRESHOLD_def chunkify_def ceil_div_def subarray_def Let_def
      insert_or_replace_def same_key_def retention_def complete_tss_def
      complete_rows_def is_complete_def RETAINED_VERSIONS_NUM_def)

lemma example_tie_info:
  "chunksInfo ''w1'' (wiki_versions example_tie) =
     Inr \<lparr>v_wikiId = ''w1'', v_tsMs = 2000, v_src = [], v_chunkIdx = 4, v_chunksTotal = Some 4\<rparr>"
  by (simp add: example_tie_eq chunksInfo_def complete_rows_def is_complete_def)

lemma example_tie_cursor:
  "chunksCursor ''w1'' 2000 (wiki_versions example_tie) =
     [[9, 8, 7], replicate 1500000 7, [], []]"
  by (simp add: example_tie_eq chunksCursor_def)

text \<open>
  Claim C4 fails on the code in two ways, seen on the document saved as 3,000,000 bytes
  without a length hint. The decision is not taken on the size: the version has four
  chunk rows (two full ones, an empty one, the terminal one), \<open>4 * 1,500,000\<close> is not
  below the threshold, and so its 3,000,000 bytes, well below 5 MB, are served row by row
  and the cache stays empty. And the sequence served is neither lazy nor cancellable:
  when \<open>getFileSrc\<close> returns, the stream of the response is closed and holds all four
  buffers, 3,000,000 bytes, in its queue, with \<open>cancelled\<close> still unset; a \<open>cancel()\<close> that
  follows finds nothing left to stop.
\<close>

theorem delivery_by_size_counterexample:
  "wikiId example_3mb = ''w1'' \<and> fileSrc example_3mb = None
   \<and> chunksInfo ''w1'' (wiki_versions example_3mb) =
       Inr \<lparr>v_wikiId = ''w1'', v_tsMs = 2000, v_src = [], v_chunkIdx = 4, v_chunksTotal = Some 4\<rparr>
   \<and> length (concat (chunksCursor ''w1'' 2000 (wiki_versions example_3mb))) = 3000000
   \<and> 3000000 < BYTE_SIZE_ATONCE_THRESHOLD
   \<and> getFileSrc example_3mb ''w1'' =
       (Inr \<lparr>status = 200, content_type = ''text/html'',
             body = Stream \<lparr>enqueued = [replicate 1500000 7, replicate 1500000 7, [], []],
                            is_closed = True, cancelled = False, chunksLen = 4,
                            totalBytes = 3000000\<rparr>\<rparr>,
        example_3mb)
   \<and> enqueued (cancel (start (Inr [replicate 1500000 7, replicate 1500000 7, [], []])))
       = [replicate 1500000 7, replicate 1500000 7, [], []]"
proof -
  have b: "wikiId example_3mb = ''w1''" "''w1'' \<noteq> []" "fileSrc example_3mb = None"
    by (simp_all add: example_3mb_eq)
  from getFileSrc_delivery [OF b example_3mb_info] example_3mb_cursor
  have "getFileSrc example_3mb ''w1'' =
       (Inr (makeStreamResponse (Inr [replicate 1500000 7, replicate 1500000 7, [], []])),
        example_3mb)"
    by (simp add: total_of_def)
  then show ?thesis
    using b
    by (simp add: example_3mb_info example_3mb_cursor BYTE_SIZE_ATONCE_THRESHOLD_def
        makeStreamResponse_def start_cursor cancel_def)
qed

text \<open>
  Claim C4, amended. On the read path without a warm cache, if \<open>chunksTotal\<close> of the
  latest complete version times the chunk size of 1.5 MB is below 5 MB, that is, if
  \<open>chunksTotal\<close> is at most 3, \<open>getFileSrc\<close> concatenates all chunks into one buffer,
  stores it in the actor's in-memory cache and serves it as one buffer; otherwise it
  serves the chunk buffers as a sequence, one buffer for each chunk row in \<open>chunkIdx\<close>
  order, and stores nothing in the cache. (When and how the sequence is produced is left
  open.)
\<close>

theorem delivery_by_chunk_count:
  assumes "wikiId s = w" "w \<noteq> []" "fileSrc s = None"
    and "chunksInfo w (wiki_versions s) = Inr info"
  shows "(total_of info * CHUNK_SIZE_MAX < BYTE_SIZE_ATONCE_THRESHOLD \<longleftrightarrow> total_of info \<le> 3)
         \<and> (total_of info \<le> 3 \<longrightarrow>
              getFileSrc s w =
                (Inr (makeStreamResponse
                        (Inl (concat (chunksCursor w (v_tsMs info) (wiki_versions s))))),
                 s\<lparr>fileSrc := Some (concat (chunksCursor w (v_tsMs info) (wiki_versions s)))\<rparr>)
              \<and> enqueued (start (Inl (concat (chunksCursor w (v_tsMs info) (wiki_versions s)))))
                  = [concat (chunksCursor w (v_tsMs info) (wiki_versions s))])
         \<and> (3 < total_of info \<longrightarrow>
              getFileSrc s w =
                (Inr (makeStreamResponse (Inr (chunksCursor w (v_tsMs info) (wiki_versions s)))), s)
              \<and> enqueued (start (Inr (chunksCursor w (v_tsMs info) (wiki_versions s))))
                  = chunksCursor w (v_tsMs info) (wiki_versions s))
         \<and> (\<forall>r\<in>set (complete_rows w (wiki_versions s)).
               v_tsMs r \<le> v_tsMs info \<and> (v_tsMs r = v_tsMs info \<longrightarrow> v_chunkIdx r \<le> v_chunkIdx info))"
proof -
  have ne: "complete_rows w (wiki_versions s) \<noteq> []"
    using assms(4) by (auto simp: chunksInfo_def)
  from chunksInfo_latest [OF ne] assms(4)
  have latest: "\<forall>r\<in>set (complete_rows w (wiki_versions s)). v_tsMs r \<le> v_tsMs info" by auto
  have idx: "\<forall>r\<in>set (complete_rows w (wiki_versions s)).
               v_tsMs r = v_tsMs info \<longrightarrow> v_chunkIdx r \<le> v_chunkIdx info"
    using chunksInfo_greatest_idx [OF assms(4)] by blast
  from getFileSrc_delivery [OF assms] latest idx show ?thesis by simp
qed

theorem delivery_by_chunk_count_witness:
  "wikiId example_restarted = ''w1'' \<and> ''w1'' \<noteq> [] \<and> fileSrc example_restarted = None
   \<and> getFileSrc example_restarted ''w1'' =
        (Inr (makeStreamResponse (Inl [1, 2, 3])), example_restarted\<lparr>fileSrc := Some [1, 2, 3]\<rparr>)
   \<and> wikiId example_3mb = ''w1'' \<and> fileSrc example_3mb = None
   \<and> getFileSrc example_3mb ''w1'' =
       (Inr (makeStreamResponse (Inr [replicate 1500000 7, replicate 1500000 7, [], []])),
        example_3mb)
   \<and> wikiId example_tie = ''w1'' \<and> fileSrc example_tie = None
   \<and> chunksInfo ''w1'' (wiki_versions example_tie) =
       Inr \<lparr>v_wikiId = ''w1'', v_tsMs = 2000, v_src = [], v_chunkIdx = 4, v_chunksTotal = Some 4\<rparr>
   \<and> getFileSrc example_tie ''w1'' =
       (Inr (makeStreamResponse (Inr [[9, 8, 7], replicate 1500000 7, [], []])), example_tie)"
proof -
  have b1: "wikiId example_restarted = ''w1''" "''w1'' \<noteq> []" "fileSrc example_restarted = None"
    by (simp_all add: example_restarted_eq)
  have i1: "chunksInfo ''w1'' (wiki_versions example_restarted) =
     Inr \<lparr>v_wikiId = ''w1'', v_tsMs = 1000, v_src = [1, 2, 3], v_chunkIdx = 1, v_chunksTotal = Some 1\<rparr>"
    by (simp add: example_restarted_eq chunksInfo_def complete_rows_def is_complete_def)
  have c1: "chunksCursor ''w1'' 1000 (wiki_versions example_restarted) = [[1, 2, 3]]"
    by (simp add: example_restarted_eq chunksCursor_def)
  have b2: "wikiId example_3mb = ''w1''" "fileSrc example_3mb = None"
    by (simp_all add: example_3mb_eq)
  have b3: "wikiId example_tie = ''w1''" "fileSrc example_tie = None"
    by (simp_all add: example_tie_eq)
  from delivery_by_chunk_count [OF b1 i1] c1
  have g1: "getFileSrc example_restarted ''w1'' =
        (Inr (makeStreamResponse (Inl [1, 2, 3])), example_restarted\<lparr>fileSrc := Some [1, 2, 3]\<rparr>)"
    by (simp add: total_of_def)
  from delivery_by_chunk_count [OF b2(1) b1(2) b2(2) example_3mb_info] example_3mb_cursor
  have g2: "getFileSrc example_3mb ''w1'' =
       (Inr (makeStreamResponse (Inr [replicate 1500000 7, replicate 1500000 7, [], []])),
        example_3mb)"
    by (simp add: total_of_def)
  from delivery_by_chunk_count [OF b3(1) b1(2) b3(2) example_tie_info] example_tie_cursor
  have g3: "getFileSrc example_tie ''w1'' =
       (Inr (makeStreamResponse (Inr [[9, 8, 7], replicate 1500000 7, [], []])), example_tie)"
    by (simp add: total_of_def)
  show ?thesis using b1 b2 b3 g1 g2 g3 example_tie_info by simp
qed

section \<open>The choice of the ingestion path\<close>

lemma takes_buffered_iff:
  "takes_buffered hint \<longleftrightarrow> (\<exists>n. hint = Some n \<and> n \<noteq> 0 \<and> n < 5000000)"
  by (cases hint) (simp_all add: takes_buffered_def BYTE_SIZE_ATONCE_THRESHOLD_def)

lemma upsert_buffered_fault:
  "takes_buffered hint \<Longrightarrow> read_all evs = Inl e \<Longrightarrow>
   upsert s w evs hint ts = (Inl e, s\<lparr>fileSrc := None\<rparr>)"
  by (simp add: upsert_def)

text \<open>
  Claim C5 says that every upsert whose length hint is known and below 5 MB takes the
  buffered path. A hint of \<open>0\<close> is known and below the threshold, but it is falsy in
  \<open>contentLength && ...\<close>: the save of an empty body with hint \<open>0\<close> takes the streaming
  path, which writes a chunk row without \<open>chunksTotal\<close> and the terminal row and leaves
  the cache empty.
\<close>

theorem buffered_for_known_hint_counterexample:
  "takes_buffered (Some 0) = False \<and> (0::int) < int BYTE_SIZE_ATONCE_THRESHOLD
   \<and> read_all [] = Inr []
   \<and> upsert example_created ''w1'' [] (Some 0) 2000 =
       (Inr (),
        example_created
          \<lparr>fileSrc := None,
           wiki_versions :=
             wiki_versions example_created
               @ [\<lparr>v_wikiId = ''w1'', v_tsMs = 2000, v_src = [], v_chunkIdx = 1, v_chunksTotal = None\<rparr>,
                  \<lparr>v_wikiId = ''w1'', v_tsMs = 2000, v_src = [], v_chunkIdx = 2,
                     v_chunksTotal = Some 2\<rparr>]\<rparr>)"
  by (simp add: example_created_eq upsert_def takes_buffered_def BYTE_SIZE_ATONCE_THRESHOLD_def
      mergeArrayBuffers_concat insert_or_replace_def same_key_def retention_def complete_tss_def
      complete_rows_def is_complete_def RETAINED_VERSIONS_NUM_def)

text \<open>
  Claim C5, amended. An upsert whose length hint is known, not zero and below the 5 MB
  threshold takes the buffered path: the whole source is read into one buffer and
  chunkified, all chunk rows, each carrying \<open>chunksTotal\<close>, are written together (none
  when the source faults), and the cache holds the buffer. An upsert whose hint is
  absent, zero, or at or above the threshold takes the streaming path: rows without
  \<open>chunksTotal\<close> for the flushed buffers, then the terminal row, and an empty cache.
  (The timestamp is later than the rows already stored for the document.)
\<close>

theorem ingestion_path_by_hint:
  assumes fr: "fresh_ts w ts (wiki_versions s)"
  shows "(takes_buffered hint \<longleftrightarrow> (\<exists>n. hint = Some n \<and> n \<noteq> 0 \<and> n < 5000000))
         \<and> (takes_buffered hint \<and> read_all evs = Inr bytes \<longrightarrow>
              (\<exists>cs. chunkify bytes CHUNK_SIZE_MAX = Inr cs \<and> concat cs = bytes
                 \<and> upsert s w evs hint ts =
                     (Inr (),
                      s\<lparr>fileSrc := Some bytes,
                        wiki_versions :=
                          retention w
                            (wiki_versions s @ numbered_rows w ts 0 (Some (length cs)) cs)\<rparr>)))
         \<and> (takes_buffered hint \<and> read_all evs = Inl e \<longrightarrow>
              upsert s w evs hint ts = (Inl e, s\<lparr>fileSrc := None\<rparr>))
         \<and> (\<not> takes_buffered hint \<and> read_all evs = Inr bytes \<longrightarrow>
              (\<exists>cs. flushed evs [] 0 = (None, cs) \<and> concat cs = bytes
                 \<and> upsert s w evs hint ts =
                     (Inr (),
                      s\<lparr>fileSrc := None,
                        wiki_versions :=
                          retention w
                            (wiki_versions s @ numbered_rows w ts 0 None cs
                               @ [\<lparr>v_wikiId = w, v_tsMs = ts, v_src = [],
                                   v_chunkIdx = length cs + 1,
                                   v_chunksTotal = Some (length cs + 1)\<rparr>])\<rparr>)))"
proof (intro conjI impI)
  show "takes_buffered hint \<longleftrightarrow> (\<exists>n. hint = Some n \<and> n \<noteq> 0 \<and> n < 5000000)"
    by (rule takes_buffered_iff)
next
  assume h: "takes_buffered hint \<and> read_all evs = Inr bytes"
  from chunkify_max [of bytes] obtain cs where
    cs: "chunkify bytes CHUNK_SIZE_MAX = Inr cs" "concat cs = bytes" by blast
  have "upsert s w evs hint ts =
          (Inr (), s\<lparr>fileSrc := Some bytes,
                     wiki_versions :=
                       retention w (wiki_versions s @ numbered_rows w ts 0 (Some (length cs)) cs)\<rparr>)"
    using upsert_ok [of evs bytes w ts s hint] h fr cs by (simp add: written_rows_def)
  with cs show "\<exists>cs. chunkify bytes CHUNK_SIZE_MAX = Inr cs \<and> concat cs = bytes
                 \<and> upsert s w evs hint ts =
                     (Inr (),
                      s\<lparr>fileSrc := Some bytes,
                        wiki_versions :=
                          retention w
                            (wiki_versions s @ numbered_rows w ts 0 (Some (length cs)) cs)\<rparr>)"
    by blast
next
  assume "takes_buffered hint \<and> read_all evs = Inl e"
  then show "upsert s w evs hint ts = (Inl e, s\<lparr>fileSrc := None\<rparr>)"
    by (simp add: upsert_buffered_fault)
next
  assume h: "\<not> takes_buffered hint \<and> read_all evs = Inr bytes"
  then have rd: "read_all evs = Inr bytes" by simp
  from flushed_ok [OF rd, of "[]" 0] obtain cs where
    cs: "flushed evs [] 0 = (None, cs)" "concat cs = bytes" by auto
  have "upsert s w evs hint ts =
          (Inr (),
           s\<lparr>fileSrc := None,
             wiki_versions :=
               retention w
                 (wiki_versions s @ numbered_rows w ts 0 None cs
                    @ [\<lparr>v_wikiId = w, v_tsMs = ts, v_src = [], v_chunkIdx = length cs + 1,
                        v_chunksTotal = Some (length cs + 1)\<rparr>])\<rparr>)"
    using upsert_ok [of evs bytes w ts s hint] h fr cs by (simp add: written_rows_def)
  with cs show "\<exists>cs. flushed evs [] 0 = (None, cs) \<and> concat cs = bytes
                 \<and> upsert s w evs hint ts =
                     (Inr (),
                      s\<lparr>fileSrc := None,
                        wiki_versions :=
                          retention w
                            (wiki_versions s @ numbered_rows w ts 0 None cs
                               @ [\<lparr>v_wikiId = w, v_tsMs = ts, v_src = [],
                                   v_chunkIdx = length cs + 1,
                                   v_chunksTotal = Some (length cs + 1)\<rparr>])\<rparr>)"
    by blast
qed

theorem ingestion_path_by_hint_witness:
  "fresh_ts ''w1'' 2000 (wiki_versions example_created)
   \<and> takes_buffered (Some 3) \<and> read_all [Data [4, 5, 6]] = Inr [4, 5, 6]
   \<and> upsert example_created ''w1'' [Data [4, 5, 6]] (Some 3) 2000 =
       (Inr (),
        example_created
          \<lparr>fileSrc := Some [4, 5, 6],
           wiki_versions :=
             wiki_versions example_created
               @ [\<lparr>v_wikiId = ''w1'', v_tsMs = 2000, v_src = [4, 5, 6], v_chunkIdx = 1,
                   v_chunksTotal = Some 1\<rparr>]\<rparr>)
   \<and> takes_buffered None = False
   \<and> upsert example_created ''w1'' [Data [4, 5, 6]] None 2000 =
       (Inr (),
        example_created
          \<lparr>fileSrc := None,
           wiki_versions :=
             wiki_versions example_created
               @ [\<lparr>v_wikiId = ''w1'', v_tsMs = 2000, v_src = [4, 5, 6], v_chunkIdx = 1,
                   v_chunksTotal = None\<rparr>,
                  \<lparr>v_wikiId = ''w1'', v_tsMs = 2000, v_src = [], v_chunkIdx = 2,
                   v_chunksTotal = Some 2\<rparr>]\<rparr>)"
proof -
  have fr: "fresh_ts ''w1'' 2000 (wiki_versions example_created)"
    by (rule example_created_fresh)
  have tb: "takes_buffered (Some 3)" "takes_buffered None = False"
    by (simp_all add: takes_buffered_def BYTE_SIZE_ATONCE_THRESHOLD_def)
  have rd: "read_all [Data [4, 5, 6]] = Inr [4, 5, 6]" by simp
  have ck: "chunkify [4, 5, 6] CHUNK_SIZE_MAX = Inr [[4, 5, 6]]"
    by (simp add: chunkify_def ceil_div_def CHUNK_SIZE_MAX_def subarray_def)
  have fl: "flushed [Data [4, 5, 6]] [] 0 = (None, [[4, 5, 6]])"
    by (simp add: CHUNK_SIZE_MAX_def mergeArrayBuffers_concat)
  from ingestion_path_by_hint [OF fr, of "Some 3" "[Data [4, 5, 6]]" "[4, 5, 6]"] tb rd ck
  have u1: "upsert example_created ''w1'' [Data [4, 5, 6]] (Some 3) 2000 =
       (Inr (),
        example_created
          \<lparr>fileSrc := Some [4, 5, 6],
           wiki_versions :=
             retention ''w1'' (wiki_versions example_created
               @ [\<lparr>v_wikiId = ''w1'', v_tsMs = 2000, v_src = [4, 5, 6], v_chunkIdx = 1,
                   v_chunksTotal = Some 1\<rparr>])\<rparr>)"
    by simp
  from ingestion_path_by_hint [OF fr, of None "[Data [4, 5, 6]]" "[4, 5, 6]"] tb rd fl
  have u2: "upsert example_created ''w1'' [Data [4, 5, 6]] None 2000 =
       (Inr (),
        example_created
          \<lparr>fileSrc := None,
           wiki_versions :=
             retention ''w1'' (wiki_versions example_created
               @ [\<lparr>v_wikiId = ''w1'', v_tsMs = 2000, v_src = [4, 5, 6], v_chunkIdx = 1,
                   v_chunksTotal = None\<rparr>,
                  \<lparr>v_wikiId = ''w1'', v_tsMs = 2000, v_src = [], v_chunkIdx = 2,
                   v_chunksTotal = Some 2\<rparr>])\<rparr>)"
    by (simp add: numeral_2_eq_2)
  have r: "\<And>rows. length rows \<le> 2 \<Longrightarrow>
             retention ''w1'' (wiki_versions example_created @ rows)
               = wiki_versions example_created @ rows"
  proof -
    fix rows :: "version_row list"
    assume "length rows \<le> 2"
    then have "length (complete_tss ''w1'' RETAINED_VERSIONS_NUM (wiki_versions example_created @ rows))
                 < RETAINED_VERSIONS_NUM"
      using length_remdups_leq [of "map v_tsMs (complete_rows ''w1'' (wiki_versions example_created @ rows))"]
        length_filter_le [of "is_complete ''w1''" "wiki_versions example_created @ rows"]
      by (simp add: complete_tss_def RETAINED_VERSIONS_NUM_def complete_rows_def example_created_eq)
    then show "retention ''w1'' (wiki_versions example_created @ rows)
               = wiki_versions example_created @ rows"
      by (simp add: retention_def)
  qed
  show ?thesis using fr tb rd u1 u2 by (simp add: r)
qed

section \<open>The binding of a tenant actor\<close>

lemma initTables_claims:
  "t_tenantId t = [] \<Longrightarrow> tid \<noteq> [] \<Longrightarrow>
   \<exists>t'. initTables t tid = (Inr tid, t') \<and> t_tenantId t' = tid \<and> tid \<in> fst ` set (tenant_info t')
        \<and> wikis t' = wikis t"
  by (auto simp: initTables_def insert_tenant_info_def)

lemma initTables_wrong:
  "t_tenantId t \<noteq> [] \<Longrightarrow> tid \<noteq> t_tenantId t \<Longrightarrow>
   initTables t tid = (Inl (WrongTenant tid (t_tenantId t)), t)"
  by (simp add: initTables_def)

lemma initTables_same:
  "t_tenantId t \<noteq> [] \<Longrightarrow> initTables t (t_tenantId t) = (Inr (t_tenantId t), t)"
  by (simp add: initTables_def)

lemma initTables_bound:
  "t_tenantId t \<noteq> [] \<Longrightarrow> snd (initTables t tid) = t"
  by (simp add: initTables_def)

lemma apply_tenant_op_bound:
  assumes "t_tenantId t \<noteq> []"
  shows "t_tenantId (apply_tenant_op t x) = t_tenantId t
         \<and> tenant_info (apply_tenant_op t x) = tenant_info t"
proof (cases x)
  case (TCreateWiki tid name ty doId wiki asset ts)
  then show ?thesis
    using assms initTables_bound [OF assms, of tid]
    by (cases "initTables t tid")
       (auto simp: createWiki_def split: sum.splits prod.splits)
next
  case (TDeleteWiki tid wid wiki)
  then show ?thesis
    using assms initTables_bound [OF assms, of tid]
    by (cases "initTables t tid")
       (auto simp: deleteWiki_def Let_def split: sum.splits prod.splits)
next
  case TList
  then show ?thesis by simp
qed

lemma foldl_tenant_bound:
  "t_tenantId t \<noteq> [] \<Longrightarrow>
   t_tenantId (foldl apply_tenant_op t ops) = t_tenantId t
   \<and> tenant_info (foldl apply_tenant_op t ops) = tenant_info t"
proof (induction ops arbitrary: t)
  case Nil
  then show ?case by simp
next
  case (Cons x ops)
  from apply_tenant_op_bound [OF Cons.prems, of x]
  have a: "t_tenantId (apply_tenant_op t x) = t_tenantId t"
    "tenant_info (apply_tenant_op t x) = tenant_info t" by simp_all
  with Cons.prems have "t_tenantId (apply_tenant_op t x) \<noteq> []" by simp
  from Cons.IH [OF this] a show ?case by simp
qed

lemma wrong_tenant_op_fails:
  assumes "t_tenantId t \<noteq> []" "presented x = Some tid" "tid \<noteq> t_tenantId t"
  shows "tenant_op_result t x = Some (WrongTenant tid (t_tenantId t)) \<and> apply_tenant_op t x = t"
proof (cases x)
  case (TCreateWiki tid' name ty doId wiki asset ts)
  with assms have "tid' = tid" by simp
  then show ?thesis
    using TCreateWiki initTables_wrong [OF assms(1) assms(3)] by (simp add: createWiki_def)
next
  case (TDeleteWiki tid' wid wiki)
  with assms have "tid' = tid" by simp
  then show ?thesis
    using TDeleteWiki initTables_wrong [OF assms(1) assms(3)] by (simp add: deleteWiki_def)
next
  case TList
  with assms show ?thesis by simp
qed

lemma example_tenant_eq:
  "example_tenant = \<lparr>t_tenantId = ''T1'', tenant_info = [(''T1'', ''{}'')], wikis = []\<rparr>"
  by (simp add: example_tenant_def initTables_def new_TenantDO_def insert_tenant_info_def)

lemma first_op_binds:
  assumes "t_tenantId t = []" "presented x = Some tid" "tid \<noteq> []"
  shows "t_tenantId (apply_tenant_op t x) = tid \<and> tid \<in> fst ` set (tenant_info (apply_tenant_op t x))"
proof -
  from initTables_claims [OF assms(1,3)] obtain t' where
    i: "initTables t tid = (Inr tid, t')" "t_tenantId t' = tid" "tid \<in> fst ` set (tenant_info t')"
    by blast
  show ?thesis
  proof (cases x)
    case (TCreateWiki tid' name ty doId wiki asset ts)
    with assms(2) have "tid' = tid" by simp
    then show ?thesis
      using TCreateWiki i by (auto simp: createWiki_def split: sum.splits prod.splits)
  next
    case (TDeleteWiki tid' wid wiki)
    with assms(2) have "tid' = tid" by simp
    then show ?thesis
      using TDeleteWiki i by (auto simp: deleteWiki_def Let_def split: sum.splits prod.splits)
  next
    case TList
    with assms(2) show ?thesis by simp
  qed
qed

text \<open>
  Claim C8. A tenant id is never empty: the callers take it from the authentication,
  which yields a fixed public id or rejects an empty one, and the empty string is the
  actor's own mark for "unclaimed". The first successful initialization of a tenant actor
  binds it to the id presented and stores its \<open>tenant_info\<close> row, also when it is the
  first step of an operation; no sequence of later operations changes the bound id or
  \<open>tenant_info\<close>; and every later operation that presents a different id fails with the
  wrong-tenant error and leaves the actor, its bound id and its \<open>tenant_info\<close> row
  included, as it was.
\<close>

theorem tenant_binding_permanent:
  "(t_tenantId t = [] \<and> tid \<noteq> [] \<longrightarrow>
      (\<exists>t'. initTables t tid = (Inr tid, t') \<and> t_tenantId t' = tid
           \<and> tid \<in> fst ` set (tenant_info t')))
   \<and> (t_tenantId t = [] \<and> presented x = Some tid \<and> tid \<noteq> [] \<longrightarrow>
        t_tenantId (apply_tenant_op t x) = tid
        \<and> tid \<in> fst ` set (tenant_info (apply_tenant_op t x)))
   \<and> (t_tenantId t \<noteq> [] \<longrightarrow>
        t_tenantId (foldl apply_tenant_op t ops) = t_tenantId t
        \<and> tenant_info (foldl apply_tenant_op t ops) = tenant_info t)
   \<and> (t_tenantId t \<noteq> [] \<and> presented x = Some tid' \<and> tid' \<noteq> t_tenantId t \<longrightarrow>
        initTables t tid' = (Inl (WrongTenant tid' (t_tenantId t)), t)
        \<and> tenant_op_result t x = Some (WrongTenant tid' (t_tenantId t))
        \<and> apply_tenant_op t x = t)"
proof (intro conjI impI)
  assume "t_tenantId t = [] \<and> tid \<noteq> []"
  then show "\<exists>t'. initTables t tid = (Inr tid, t') \<and> t_tenantId t' = tid
           \<and> tid \<in> fst ` set (tenant_info t')"
    using initTables_claims [of t tid] by blast
next
  assume h: "t_tenantId t = [] \<and> presented x = Some tid \<and> tid \<noteq> []"
  from h first_op_binds [of t x tid]
  show "t_tenantId (apply_tenant_op t x) = tid"
    and "tid \<in> fst ` set (tenant_info (apply_tenant_op t x))" by simp_all
next
  assume b: "t_tenantId t \<noteq> []"
  from foldl_tenant_bound [OF b, of ops]
  show "t_tenantId (foldl apply_tenant_op t ops) = t_tenantId t"
    and "tenant_info (foldl apply_tenant_op t ops) = tenant_info t" by simp_all
next
  assume h: "t_tenantId t \<noteq> [] \<and> presented x = Some tid' \<and> tid' \<noteq> t_tenantId t"
  then show "initTables t tid' = (Inl (WrongTenant tid' (t_tenantId t)), t)"
    by (simp add: initTables_wrong)
  from h wrong_tenant_op_fails [of t x tid']
  show "tenant_op_result t x = Some (WrongTenant tid' (t_tenantId t))"
    and "apply_tenant_op t x = t" by simp_all
qed

theorem tenant_binding_permanent_witness:
  "t_tenantId new_TenantDO = [] \<and> ''T1'' \<noteq> []
   \<and> initTables new_TenantDO ''T1'' = (Inr ''T1'', example_tenant)
   \<and> t_tenantId example_tenant = ''T1'' \<and> tenant_info example_tenant = [(''T1'', ''{}'')]
   \<and> presented (TCreateWiki ''T1'' ''Notes'' ''md'' ''w1'' new_WikiDO (Inr [1, 2, 3]) 1000) = Some ''T1''
   \<and> t_tenantId
        (apply_tenant_op new_TenantDO
           (TCreateWiki ''T1'' ''Notes'' ''md'' ''w1'' new_WikiDO (Inr [1, 2, 3]) 1000)) = ''T1''
   \<and> presented (TDeleteWiki ''T2'' ''w1'' new_WikiDO) = Some ''T2''
   \<and> tenant_op_result example_tenant (TDeleteWiki ''T2'' ''w1'' new_WikiDO)
        = Some (WrongTenant ''T2'' ''T1'')
   \<and> apply_tenant_op example_tenant (TDeleteWiki ''T2'' ''w1'' new_WikiDO) = example_tenant
   \<and> t_tenantId
        (foldl apply_tenant_op example_tenant
           [TCreateWiki ''T1'' ''Notes'' ''tw5'' ''w1'' new_WikiDO (Inr [1, 2, 3]) 1000,
            TDeleteWiki ''T2'' ''w1'' new_WikiDO, TList]) = ''T1''"
proof -
  have a: "t_tenantId new_TenantDO = []" "''T1'' \<noteq> []"
    by (simp_all add: new_TenantDO_def)
  have i: "initTables new_TenantDO ''T1'' = (Inr ''T1'', example_tenant)"
    by (simp add: example_tenant_def initTables_def new_TenantDO_def)
  have b: "t_tenantId example_tenant = ''T1''" "tenant_info example_tenant = [(''T1'', ''{}'')]"
    by (simp_all add: example_tenant_eq)
  have p: "presented (TDeleteWiki ''T2'' ''w1'' new_WikiDO) = Some ''T2''" by simp
  have q: "presented (TCreateWiki ''T1'' ''Notes'' ''md'' ''w1'' new_WikiDO (Inr [1, 2, 3]) 1000) = Some ''T1''"
    by simp
  from tenant_binding_permanent
         [where t = new_TenantDO and tid = "''T1''"
            and x = "TCreateWiki ''T1'' ''Notes'' ''md'' ''w1'' new_WikiDO (Inr [1, 2, 3]) 1000"]
  have first: "t_tenantId
        (apply_tenant_op new_TenantDO
           (TCreateWiki ''T1'' ''Notes'' ''md'' ''w1'' new_WikiDO (Inr [1, 2, 3]) 1000)) = ''T1''"
    using a q by simp
  from tenant_binding_permanent
         [where t = example_tenant and tid = "''T1''"
            and ops = "[TCreateWiki ''T1'' ''Notes'' ''tw5'' ''w1'' new_WikiDO (Inr [1, 2, 3]) 1000,
              TDeleteWiki ''T2'' ''w1'' new_WikiDO, TList]"
            and x = "TDeleteWiki ''T2'' ''w1'' new_WikiDO" and tid' = "''T2''"]
  show ?thesis using a i b p q first by simp
qed

section \<open>No index row without a created document\<close>

lemma create_fails_cases:
  "(ty \<noteq> ''tw5'' \<longrightarrow> create wiki tid doId name ty asset ts = (Inl (InvalidWikiType ty), wiki))
   \<and> (ty = ''tw5'' \<and> asset = Inl e \<longrightarrow> create wiki tid doId name ty asset ts = (Inl e, wiki))"
  by (simp add: create_def)

lemma createWiki_create_fails:
  assumes "fst (create wiki tid doId name ty asset ts) = Inl e"
  shows "(\<exists>e'. fst (createWiki t tid name ty doId wiki asset ts) = Inl e')
         \<and> wikis (fst (snd (createWiki t tid name ty doId wiki asset ts))) = wikis t"
proof (cases "initTables t tid")
  case (Pair r t1)
  have w: "wikis t1 = wikis t"
    using Pair by (auto simp: initTables_def split: if_splits)
  show ?thesis
  proof (cases r)
    case (Inl err)
    then show ?thesis using Pair w by (simp add: createWiki_def)
  next
    case (Inr v)
    obtain cr wiki1 where c: "create wiki tid doId name ty asset ts = (cr, wiki1)"
      by (cases "create wiki tid doId name ty asset ts")
    with assms have "cr = Inl e" by simp
    then show ?thesis using Pair Inr c w by (simp add: createWiki_def)
  qed
qed

lemma createWiki_success:
  assumes "fst (createWiki t tid name ty doId wiki asset ts) = Inr res"
  shows "\<exists>cr. fst (create wiki tid doId name ty asset ts) = Inr cr \<and> createdAtMs cr = ts
           \<and> cw_redirectUrl res = redirectUrl cr
           \<and> wikis (fst (snd (createWiki t tid name ty doId wiki asset ts)))
               = insert_or_replace_wiki
                   \<lparr>w_wikiId = doId, w_tenantId = tid, w_name = name, w_wikiType = ty,
                    w_createdAtMs = ts\<rparr> (wikis t)"
proof (cases "initTables t tid")
  case (Pair r t1)
  have w: "wikis t1 = wikis t"
    using Pair by (auto simp: initTables_def split: if_splits)
  show ?thesis
  proof (cases r)
    case (Inl err)
    then show ?thesis using Pair assms by (simp add: createWiki_def)
  next
    case (Inr v)
    obtain cr wiki1 where c: "create wiki tid doId name ty asset ts = (cr, wiki1)"
      by (cases "create wiki tid doId name ty asset ts")
    show ?thesis
    proof (cases cr)
      case (Inl err)
      then show ?thesis using Pair Inr c assms by (simp add: createWiki_def)
    next
      case (Inr cres)
      have "createdAtMs cres = ts"
        using c Inr by (auto simp: create_def Let_def split: if_splits sum.splits)
      then show ?thesis
        using Pair \<open>r = Inr v\<close> c Inr assms w by (auto simp: createWiki_def)
    qed
  qed
qed

text \<open>
  Claim C9. \<open>createWiki\<close> writes the index row \<open>(wikiId, tenantId, name, wikiType,
  createdAtMs)\<close> only after the document actor's \<open>create\<close> has returned: when \<open>create\<close>
  throws (it does on a type other than \<open>tw5\<close> and when the template fetch rejects),
  \<open>createWiki\<close> fails too, the \<open>wikis\<close> table is unchanged, and a freshly allocated id is
  not in the list that follows; when \<open>createWiki\<close> succeeds, \<open>create\<close> has succeeded and
  the row carries its \<open>createdAtMs\<close>.
\<close>

theorem createWiki_no_orphan:
  "(fst (create wiki tid doId name ty asset ts) = Inl e \<longrightarrow>
      (\<exists>e'. fst (createWiki t tid name ty doId wiki asset ts) = Inl e')
      \<and> wikis (fst (snd (createWiki t tid name ty doId wiki asset ts))) = wikis t
      \<and> (doId \<in> w_wikiId ` set (wikis t)
           \<or> doId \<notin> a_wikiId ` set (list_wikis (fst (snd (createWiki t tid name ty doId wiki asset ts))))))
   \<and> (ty \<noteq> ''tw5'' \<longrightarrow> fst (create wiki tid doId name ty asset ts) = Inl (InvalidWikiType ty))
   \<and> (ty = ''tw5'' \<and> asset = Inl e \<longrightarrow> fst (create wiki tid doId name ty asset ts) = Inl e)
   \<and> (fst (createWiki t tid name ty doId wiki asset ts) = Inr res \<longrightarrow>
        (\<exists>cr. fst (create wiki tid doId name ty asset ts) = Inr cr \<and> createdAtMs cr = ts
           \<and> wikis (fst (snd (createWiki t tid name ty doId wiki asset ts)))
               = insert_or_replace_wiki
                   \<lparr>w_wikiId = doId, w_tenantId = tid, w_name = name, w_wikiType = ty,
                    w_createdAtMs = ts\<rparr> (wikis t)))"
proof (intro conjI impI)
  assume f: "fst (create wiki tid doId name ty asset ts) = Inl e"
  note c = createWiki_create_fails [OF f, of t]
  show "\<exists>e'. fst (createWiki t tid name ty doId wiki asset ts) = Inl e'" using c by blast
  show w: "wikis (fst (snd (createWiki t tid name ty doId wiki asset ts))) = wikis t"
    using c by blast
  show "doId \<in> w_wikiId ` set (wikis t)
           \<or> doId \<notin> a_wikiId ` set (list_wikis (fst (snd (createWiki t tid name ty doId wiki asset ts))))"
    by (auto simp: list_wikis_def w)
next
  assume "ty \<noteq> ''tw5''"
  then show "fst (create wiki tid doId name ty asset ts) = Inl (InvalidWikiType ty)"
    by (simp add: create_def)
next
  assume "ty = ''tw5'' \<and> asset = Inl e"
  then show "fst (create wiki tid doId name ty asset ts) = Inl e"
    by (simp add: create_def)
next
  assume "fst (createWiki t tid name ty doId wiki asset ts) = Inr res"
  from createWiki_success [OF this]
  show "\<exists>cr. fst (create wiki tid doId name ty asset ts) = Inr cr \<and> createdAtMs cr = ts
           \<and> wikis (fst (snd (createWiki t tid name ty doId wiki asset ts)))
               = insert_or_replace_wiki
                   \<lparr>w_wikiId = doId, w_tenantId = tid, w_name = name, w_wikiType = ty,
                    w_createdAtMs = ts\<rparr> (wikis t)"
    by blast
qed

theorem createWiki_no_orphan_witness:
  "fst (create new_WikiDO ''T1'' ''w9'' ''Notes'' ''md'' (Inr [1, 2, 3]) 1000) = Inl (InvalidWikiType ''md'')
   \<and> fst (createWiki example_tenant ''T1'' ''Notes'' ''md'' ''w9'' new_WikiDO (Inr [1, 2, 3]) 1000)
        = Inl (InvalidWikiType ''md'')
   \<and> wikis (fst (snd (createWiki example_tenant ''T1'' ''Notes'' ''md'' ''w9'' new_WikiDO (Inr [1, 2, 3]) 1000))) = []
   \<and> list_wikis (fst (snd (createWiki example_tenant ''T1'' ''Notes'' ''md'' ''w9'' new_WikiDO (Inr [1, 2, 3]) 1000))) = []
   \<and> fst (create new_WikiDO ''T1'' ''w9'' ''Notes'' ''tw5'' (Inl FetchFailed) 1000) = Inl FetchFailed
   \<and> wikis (fst (snd (createWiki example_tenant ''T1'' ''Notes'' ''tw5'' ''w9'' new_WikiDO (Inl FetchFailed) 1000))) = []
   \<and> fst (createWiki example_tenant ''T1'' ''Notes'' ''tw5'' ''w9'' new_WikiDO (Inr [1, 2, 3]) 1000)
        = Inr \<lparr>cw_ok = True, cw_redirectUrl = ''/w/w9/Notes''\<rparr>
   \<and> wikis (fst (snd (createWiki example_tenant ''T1'' ''Notes'' ''tw5'' ''w9'' new_WikiDO (Inr [1, 2, 3]) 1000)))
        = [\<lparr>w_wikiId = ''w9'', w_tenantId = ''T1'', w_name = ''Notes'', w_wikiType = ''tw5'',
            w_createdAtMs = 1000\<rparr>]"
proof -
  have c1: "fst (create new_WikiDO ''T1'' ''w9'' ''Notes'' ''md'' (Inr [1, 2, 3]) 1000) = Inl (InvalidWikiType ''md'')"
    by (simp add: create_def)
  have c2: "fst (create new_WikiDO ''T1'' ''w9'' ''Notes'' ''tw5'' (Inl FetchFailed) 1000) = Inl FetchFailed"
    by (simp add: create_def)
  have e1: "fst (createWiki example_tenant ''T1'' ''Notes'' ''md'' ''w9'' new_WikiDO (Inr [1, 2, 3]) 1000)
        = Inl (InvalidWikiType ''md'')"
    by (simp add: createWiki_def example_tenant_eq initTables_def create_def)
  have ok: "fst (createWiki example_tenant ''T1'' ''Notes'' ''tw5'' ''w9'' new_WikiDO (Inr [1, 2, 3]) 1000)
        = Inr \<lparr>cw_ok = True, cw_redirectUrl = ''/w/w9/Notes''\<rparr>"
    by (simp add: createWiki_def example_tenant_eq initTables_def create_def chunkify_def
        CHUNK_SIZE_MAX_def Let_def)
  have w0: "wikis example_tenant = []" by (simp add: example_tenant_eq)
  from createWiki_no_orphan
         [of new_WikiDO "''T1''" "''w9''" "''Notes''" "''md''" "Inr [1, 2, 3]" 1000
            "InvalidWikiType ''md''" example_tenant]
       c1 w0
  have f1: "wikis (fst (snd (createWiki example_tenant ''T1'' ''Notes'' ''md'' ''w9'' new_WikiDO (Inr [1, 2, 3]) 1000))) = []"
    by simp
  then have l1: "list_wikis (fst (snd (createWiki example_tenant ''T1'' ''Notes'' ''md'' ''w9'' new_WikiDO (Inr [1, 2, 3]) 1000))) = []"
    by (simp add: list_wikis_def)
  from createWiki_no_orphan
         [of new_WikiDO "''T1''" "''w9''" "''Notes''" "''tw5''" "Inl FetchFailed" 1000
            FetchFailed example_tenant]
       c2 w0
  have f2: "wikis (fst (snd (createWiki example_tenant ''T1'' ''Notes'' ''tw5'' ''w9'' new_WikiDO (Inl FetchFailed) 1000))) = []"
    by simp
  from createWiki_no_orphan
         [of new_WikiDO "''T1''" "''w9''" "''Notes''" "''tw5''" "Inr [1, 2, 3]" 1000 FetchFailed example_tenant
            "\<lparr>cw_ok = True, cw_redirectUrl = ''/w/w9/Notes''\<rparr>"]
       ok w0
  have s: "wikis (fst (snd (createWiki example_tenant ''T1'' ''Notes'' ''tw5'' ''w9'' new_WikiDO (Inr [1, 2, 3]) 1000)))
        = [\<lparr>w_wikiId = ''w9'', w_tenantId = ''T1'', w_name = ''Notes'', w_wikiType = ''tw5'',
            w_createdAtMs = 1000\<rparr>]"
    by (auto simp: insert_or_replace_wiki_def)
  show ?thesis using c1 c2 e1 ok f1 l1 f2 s by simp
qed

section \<open>The migration runner\<close>

lemma pending_skip:
  "idMonotonicInc m \<le> hw \<Longrightarrow> pending (m # ms) hw = pending ms hw"
  by (simp add: pending_def)

lemma pending_take:
  assumes "sorted_wrt (<) (map idMonotonicInc (m # ms))" "hw < idMonotonicInc m"
  shows "pending (m # ms) hw = idMonotonicInc m # pending ms (idMonotonicInc m)"
proof -
  have "\<forall>x\<in>set ms. idMonotonicInc m < idMonotonicInc x" using assms(1) by simp
  then have "filter (\<lambda>x. hw < idMonotonicInc x) ms = filter (\<lambda>x. idMonotonicInc m < idMonotonicInc x) ms"
    using assms(2) by (intro filter_cong) auto
  then show ?thesis using assms(2) by (simp add: pending_def)
qed

lemma pending_sorted:
  "sorted_wrt (<) (map idMonotonicInc ms) \<Longrightarrow> sorted_wrt (<) (pending ms hw)"
  unfolding pending_def by (induction ms) auto

lemma pending_above: "k \<in> set (pending ms hw) \<Longrightarrow> hw < k"
  by (auto simp: pending_def)

lemma runAll_spec:
  assumes "sorted_wrt (<) (map idMonotonicInc ms)" and "runAll exec ms st = (r, st')"
  shows "(failedAt r = None \<longrightarrow> applied r = pending ms (highWater st))
         \<and> (\<forall>k. failedAt r = Some k \<longrightarrow>
                (\<exists>rest. pending ms (highWater st) = applied r @ k # rest))
         \<and> highWater st' = last (highWater st # applied r)"
  using assms
proof (induction ms arbitrary: st r st')
  case Nil
  then show ?case by (auto simp: pending_def)
next
  case (Cons m ms)
  from Cons.prems have srt: "sorted_wrt (<) (map idMonotonicInc ms)" by simp
  show ?case
  proof (cases "idMonotonicInc m \<le> highWater st")
    case True
    with Cons.prems(2) have run: "runAll exec ms st = (r, st')" by simp
    show ?thesis unfolding pending_skip [OF True] by (rule Cons.IH [OF srt run])
  next
    case False
    then have gt: "highWater st < idMonotonicInc m" by simp
    note pt = pending_take [OF Cons.prems(1) gt]
    show ?thesis
    proof (cases "exec (sql m) (store st)")
      case None
      with Cons.prems(2) False
      have "r = \<lparr>applied = [], rowsWritten = 0, failedAt = Some (idMonotonicInc m)\<rparr>" "st' = st"
        by simp_all
      then show ?thesis unfolding pt by simp
    next
      case (Some p)
      obtain n db' where p: "p = (n, db')" by (cases p)
      let ?st1 = "\<lparr>highWater = idMonotonicInc m, store = db'\<rparr>"
      obtain r1 st1 where r1: "runAll exec ms ?st1 = (r1, st1)" by (cases "runAll exec ms ?st1")
      from Cons.IH [OF srt r1]
      have ih1: "failedAt r1 = None \<longrightarrow> applied r1 = pending ms (idMonotonicInc m)"
        and ih2: "\<forall>k. failedAt r1 = Some k \<longrightarrow>
                (\<exists>rest. pending ms (idMonotonicInc m) = applied r1 @ k # rest)"
        and hw: "highWater st1 = last (idMonotonicInc m # applied r1)"
        by simp_all
      from Cons.prems(2) False Some p r1
      have r: "r = \<lparr>applied = idMonotonicInc m # applied r1, rowsWritten = n + 1 + rowsWritten r1,
                     failedAt = failedAt r1\<rparr>" and st: "st' = st1"
        by simp_all
      show ?thesis
        unfolding pt r st using ih1 ih2 hw by auto
    qed
  qed
qed

lemma runAll_noop:
  "pending ms (highWater st) = [] \<Longrightarrow>
   runAll exec ms st = (\<lparr>applied = [], rowsWritten = 0, failedAt = None\<rparr>, st)"
proof (induction ms)
  case Nil
  then show ?case by simp
next
  case (Cons m ms)
  from Cons.prems have le: "idMonotonicInc m \<le> highWater st" and p: "pending ms (highWater st) = []"
    by (auto simp: pending_def split: if_splits)
  from Cons.IH [OF p] le show ?case by simp
qed

lemma pending_after_last:
  assumes "sorted_wrt (<) (map idMonotonicInc ms)"
  shows "pending ms (last (hw # pending ms hw)) = []"
proof (cases "pending ms hw = []")
  case True
  then show ?thesis by simp
next
  case False
  let ?l = "last (pending ms hw)"
  have "\<forall>k\<in>set (pending ms hw). k \<le> ?l"
  proof -
    have "sorted (pending ms hw)"
      using pending_sorted [OF assms, of hw] by (rule sorted_wrt_mono_rel [rotated]) simp
    then show ?thesis
      using sorted_last_max [of "\<lambda>x. x" "pending ms hw"] by simp
  qed
  moreover have "\<And>m. m \<in> set ms \<Longrightarrow> ?l < idMonotonicInc m \<Longrightarrow> idMonotonicInc m \<in> set (pending ms hw)"
  proof -
    fix m
    assume m: "m \<in> set ms" "?l < idMonotonicInc m"
    have "?l \<in> set (pending ms hw)" using False by simp
    then have "hw < ?l" by (rule pending_above)
    with m show "idMonotonicInc m \<in> set (pending ms hw)" by (auto simp: pending_def)
  qed
  ultimately have "filter (\<lambda>m. ?l < idMonotonicInc m) ms = []"
    by (fastforce simp: filter_empty_conv)
  then show ?thesis using False by (simp add: pending_def)
qed

text \<open>
  Claim C10. On an ordered list of migrations, \<open>runAll\<close> applies exactly the migrations
  whose id is greater than the stored high-water mark, in strictly ascending order of
  their ids; when one fails, those before it stay applied, the failing one is the next
  pending one, and the mark stands at the last migration that succeeded; after every run
  the mark is the id of the last migration applied (or the old mark when none was). A
  second run right after a run that applied everything applies nothing, writes zero
  rows and leaves the state as it is.
\<close>

theorem runAll_applies_pending:
  assumes "sorted_wrt (<) (map idMonotonicInc ms)"
  shows "(failedAt (fst (runAll exec ms st)) = None \<longrightarrow>
            applied (fst (runAll exec ms st)) = pending ms (highWater st))
         \<and> (\<forall>k. failedAt (fst (runAll exec ms st)) = Some k \<longrightarrow>
                (\<exists>rest. pending ms (highWater st) = applied (fst (runAll exec ms st)) @ k # rest))
         \<and> sorted_wrt (<) (applied (fst (runAll exec ms st)))
         \<and> highWater (snd (runAll exec ms st)) = last (highWater st # applied (fst (runAll exec ms st)))
         \<and> (failedAt (fst (runAll exec ms st)) = None \<longrightarrow>
              runAll exec ms (snd (runAll exec ms st))
                = (\<lparr>applied = [], rowsWritten = 0, failedAt = None\<rparr>, snd (runAll exec ms st)))"
proof -
  let ?r = "fst (runAll exec ms st)" and ?st = "snd (runAll exec ms st)"
  have "runAll exec ms st = (?r, ?st)" by simp
  note sp = runAll_spec [OF assms this]
  have a1: "failedAt ?r = None \<longrightarrow> applied ?r = pending ms (highWater st)"
    and a2: "\<forall>k. failedAt ?r = Some k \<longrightarrow>
                (\<exists>rest. pending ms (highWater st) = applied ?r @ k # rest)"
    and hw: "highWater ?st = last (highWater st # applied ?r)"
    using sp by blast+
  have srt: "sorted_wrt (<) (applied ?r)"
  proof (cases "failedAt ?r")
    case None
    with a1 show ?thesis by (simp add: pending_sorted [OF assms])
  next
    case (Some k)
    with a2 obtain rest where "pending ms (highWater st) = applied ?r @ k # rest" by blast
    with pending_sorted [OF assms, of "highWater st"] show ?thesis
      by (simp add: sorted_wrt_append)
  qed
  have idem: "failedAt ?r = None \<longrightarrow>
              runAll exec ms ?st = (\<lparr>applied = [], rowsWritten = 0, failedAt = None\<rparr>, ?st)"
  proof
    assume n: "failedAt ?r = None"
    with a1 have "applied ?r = pending ms (highWater st)" by simp
    with hw have "highWater ?st = last (highWater st # pending ms (highWater st))" by simp
    with pending_after_last [OF assms, of "highWater st"]
    have "pending ms (highWater ?st) = []" by simp
    then show "runAll exec ms ?st = (\<lparr>applied = [], rowsWritten = 0, failedAt = None\<rparr>, ?st)"
      by (rule runAll_noop)
  qed
  from a1 a2 srt hw idem show ?thesis by blast
qed

theorem runAll_applies_pending_witness:
  "sorted_wrt (<) (map idMonotonicInc TenantMigrations)
   \<and> runAll example_exec TenantMigrations \<lparr>highWater = 1, store = []\<rparr>
       = (\<lparr>applied = [2], rowsWritten = 2, failedAt = None\<rparr>,
          \<lparr>highWater = 2, store = [''ALTER TABLE wikis ADD createdAtMs INTEGER;'']\<rparr>)
   \<and> runAll example_exec TenantMigrations
        \<lparr>highWater = 2, store = [''ALTER TABLE wikis ADD createdAtMs INTEGER;'']\<rparr>
       = (\<lparr>applied = [], rowsWritten = 0, failedAt = None\<rparr>,
          \<lparr>highWater = 2, store = [''ALTER TABLE wikis ADD createdAtMs INTEGER;'']\<rparr>)"
proof -
  have s: "sorted_wrt (<) (map idMonotonicInc TenantMigrations)"
    by (simp add: TenantMigrations_def)
  have r: "runAll example_exec TenantMigrations \<lparr>highWater = 1, store = []\<rparr>
       = (\<lparr>applied = [2], rowsWritten = 2, failedAt = None\<rparr>,
          \<lparr>highWater = 2, store = [''ALTER TABLE wikis ADD createdAtMs INTEGER;'']\<rparr>)"
    by (simp add: TenantMigrations_def example_exec_def)
  from runAll_applies_pending [OF s, of example_exec "\<lparr>highWater = 1, store = []\<rparr>"]
  show ?thesis using s r by simp
qed

section \<open>The retention step\<close>

lemma desc_above_nth:
  assumes srt: "sorted_wrt (>) (l :: int list)" and i: "i < length l"
  shows "{t \<in> set l. l ! i < t} = set (take i l)"
proof
  show "{t \<in> set l. l ! i < t} \<subseteq> set (take i l)"
  proof
    fix t
    assume "t \<in> {t \<in> set l. l ! i < t}"
    then obtain j where j: "j < length l" "t = l ! j" "l ! i < l ! j"
      by (auto simp: in_set_conv_nth)
    have "j < i"
    proof (rule ccontr)
      assume "\<not> j < i"
      then consider "j = i" | "i < j" by linarith
      then show False
      proof cases
        case 1
        with j show False by simp
      next
        case 2
        with srt j(1) have "l ! i > l ! j" by (simp add: sorted_wrt_iff_nth_less)
        with j show False by simp
      qed
    qed
    with j i show "t \<in> set (take i l)" by (auto simp: in_set_conv_nth)
  qed
next
  show "set (take i l) \<subseteq> {t \<in> set l. l ! i < t}"
  proof
    fix t
    assume "t \<in> set (take i l)"
    then obtain j where j: "j < i" "j < length l" "t = l ! j"
      by (auto simp: in_set_conv_nth)
    with srt i have "l ! j > l ! i" by (simp add: sorted_wrt_iff_nth_less)
    with j show "t \<in> {t \<in> set l. l ! i < t}" by simp
  qed
qed

lemma desc_list_of:
  fixes xs :: "int list"
  defines "l \<equiv> rev (sort (remdups xs))"
  shows "set l = set xs" "distinct l" "sorted_wrt (>) l" "length l = card (set xs)"
proof -
  show "set l = set xs" by (simp add: l_def)
  show d: "distinct l" by (simp add: l_def)
  have "sorted_wrt (<) (sort (remdups xs))"
    by (simp add: strict_sorted_iff)
  then show "sorted_wrt (>) l" by (simp add: l_def sorted_wrt_rev)
  show "length l = card (set xs)"
    using d distinct_card [of l] by (simp add: l_def)
qed

lemma retention_spec:
  "(card (complete_ts w tbl) < RETAINED_VERSIONS_NUM \<longrightarrow> retention w tbl = tbl)
   \<and> (RETAINED_VERSIONS_NUM \<le> card (complete_ts w tbl) \<longrightarrow>
        (\<exists>c\<in>complete_ts w tbl.
           card {t \<in> complete_ts w tbl. c < t} = RETAINED_VERSIONS_NUM - 1
           \<and> retention w tbl = filter (\<lambda>r. \<not> (v_wikiId r = w \<and> v_tsMs r < c)) tbl))"
proof -
  let ?xs = "map v_tsMs (complete_rows w tbl)"
  let ?l = "rev (sort (remdups ?xs))"
  have C: "complete_ts w tbl = set ?xs" by (simp add: complete_ts_def)
  note L = desc_list_of [of ?xs]
  have len: "length ?l = card (complete_ts w tbl)" using L(4) C by simp
  have tss: "complete_tss w RETAINED_VERSIONS_NUM tbl = take RETAINED_VERSIONS_NUM ?l"
    by (simp add: complete_tss_def)
  show ?thesis
  proof (intro conjI impI)
    assume "card (complete_ts w tbl) < RETAINED_VERSIONS_NUM"
    then show "retention w tbl = tbl"
      using len by (simp add: retention_def tss)
  next
    assume ge: "RETAINED_VERSIONS_NUM \<le> card (complete_ts w tbl)"
    then have l10: "10 \<le> length ?l" using len by (simp add: RETAINED_VERSIONS_NUM_def)
    then have i: "9 < length ?l" by simp
    have lt: "length (take 10 ?l) = 10" using l10 by simp
    have ne: "take 10 ?l \<noteq> []"
    proof
      assume "take 10 ?l = []"
      then have "length (take 10 ?l) = 0" by (simp only: list.size)
      with lt show False by simp
    qed
    have "last (take 10 ?l) = take 10 ?l ! (length (take 10 ?l) - 1)"
      using ne by (rule last_conv_nth)
    also have "\<dots> = take 10 ?l ! 9" unfolding lt by simp
    also have "\<dots> = ?l ! 9" by simp
    finally have last: "last (take 10 ?l) = ?l ! 9" .
    let ?c = "?l ! 9"
    have cin: "?c \<in> complete_ts w tbl"
      using i L(1) C nth_mem [OF i] by simp
    have "{t \<in> set ?l. ?c < t} = set (take 9 ?l)"
      using desc_above_nth [OF L(3) i] .
    moreover have "card (set (take 9 ?l)) = 9"
      using L(2) i distinct_card [of "take 9 ?l"] by simp
    ultimately have above: "card {t \<in> complete_ts w tbl. ?c < t} = 9"
      using L(1) C by simp
    have "retention w tbl = filter (\<lambda>r. \<not> (v_wikiId r = w \<and> v_tsMs r < ?c)) tbl"
    proof -
      have t10: "complete_tss w 10 tbl = take 10 ?l" by (simp add: complete_tss_def)
      show ?thesis
        unfolding retention_def RETAINED_VERSIONS_NUM_def Let_def t10 last
        using lt by simp
    qed
    with cin above show "\<exists>c\<in>complete_ts w tbl.
           card {t \<in> complete_ts w tbl. c < t} = RETAINED_VERSIONS_NUM - 1
           \<and> retention w tbl = filter (\<lambda>r. \<not> (v_wikiId r = w \<and> v_tsMs r < c)) tbl"
      by (auto simp: RETAINED_VERSIONS_NUM_def)
  qed
qed

lemma top_segment:
  fixes C S :: "int set"
  assumes fin: "finite C" and c: "c \<in> C" and nine: "card {t \<in> C. c < t} = 9"
    and sub: "S \<subseteq> C" and upper: "\<forall>x\<in>C - S. \<forall>s\<in>S. x < s" and small: "card S \<le> 10"
  shows "\<forall>s\<in>S. c \<le> s" and "card S = 10 \<Longrightarrow> c \<in> S"
proof -
  have finS: "finite S" using fin sub by (rule rev_finite_subset)
  show le: "\<forall>s\<in>S. c \<le> s"
  proof (rule ccontr)
    assume "\<not> (\<forall>s\<in>S. c \<le> s)"
    then obtain s where s: "s \<in> S" "s < c" by auto
    have cS: "c \<in> S"
    proof (rule ccontr)
      assume "c \<notin> S"
      with c upper s(1) have "c < s" by blast
      with s(2) show False by simp
    qed
    have "{t \<in> C. c < t} \<subseteq> S - {c, s}"
    proof
      fix t
      assume "t \<in> {t \<in> C. c < t}"
      then have t: "t \<in> C" "c < t" by simp_all
      have "t \<in> S"
      proof (rule ccontr)
        assume "t \<notin> S"
        with t(1) upper s(1) have "t < s" by blast
        with t(2) s(2) show False by simp
      qed
      with t(2) s(2) show "t \<in> S - {c, s}" by auto
    qed
    then have "card {t \<in> C. c < t} \<le> card (S - {c, s})"
      using finS by (intro card_mono) auto
    moreover have "card (S - {c, s}) = card S - 2"
      using finS cS s by (simp add: card_Diff_subset)
    ultimately show False using nine small by simp
  qed
  show "c \<in> S" if ten: "card S = 10"
  proof (rule ccontr)
    assume "c \<notin> S"
    with c upper have "\<forall>s\<in>S. c < s" by blast
    then have "S \<subseteq> {t \<in> C. c < t}" using sub by auto
    then have "card S \<le> card {t \<in> C. c < t}"
      using fin by (intro card_mono) auto
    with nine ten show False by simp
  qed
qed

lemma complete_ts_subset_all: "complete_ts w tbl \<subseteq> all_ts w tbl"
  by (auto simp: complete_ts_def all_ts_def complete_rows_def is_complete_def)

lemma finite_complete_ts: "finite (complete_ts w tbl)"
  by (simp add: complete_ts_def)

lemma complete_ts_append_version:
  assumes "\<forall>r\<in>set rows. sel w ts r" "\<exists>r\<in>set rows. is_complete w r"
  shows "complete_ts w (tbl @ rows) = insert ts (complete_ts w tbl)"
  using assms by (fastforce simp: complete_ts_def complete_rows_def sel_def)

lemma all_ts_append_version:
  assumes "\<forall>r\<in>set rows. sel w ts r" "\<exists>r\<in>set rows. is_complete w r"
  shows "all_ts w (tbl @ rows) = insert ts (all_ts w tbl)"
  using assms by (fastforce simp: all_ts_def sel_def is_complete_def)

lemma complete_ts_cut:
  "complete_ts w (filter (\<lambda>r. \<not> (v_wikiId r = w \<and> v_tsMs r < c)) tbl)
     = {t \<in> complete_ts w tbl. c \<le> t}"
  by (fastforce simp: complete_ts_def complete_rows_def is_complete_def)

lemma all_ts_cut:
  "all_ts w (filter (\<lambda>r. \<not> (v_wikiId r = w \<and> v_tsMs r < c)) tbl) = {t \<in> all_ts w tbl. c \<le> t}"
  by (fastforce simp: all_ts_def)

lemma lastn_snoc:
  "set (drop (length (T @ [ts]) - 10) (T @ [ts])) \<subseteq> insert ts (set (drop (length T - 10) T))"
proof -
  have "drop (length (T @ [ts]) - 10) (T @ [ts]) = drop (length T + 1 - 10) T @ [ts]"
    by simp
  moreover have "set (drop (length T + 1 - 10) T) \<subseteq> set (drop (length T - 10) T)"
    by (rule set_drop_subset_set_drop) simp
  ultimately show ?thesis by auto
qed

lemma lastn_has_last: "ts \<in> set (drop (length (T @ [ts]) - 10) (T @ [ts]))"
  by simp

lemma below_lastn:
  assumes srt: "sorted_wrt (<) (T :: int list)" and x: "x \<in> set T" "x \<notin> set (drop k T)"
  shows "\<forall>s\<in>set (drop k T). x < s"
proof -
  from srt have s: "sorted_wrt (<) (take k T @ drop k T)"
    by (simp only: append_take_drop_id)
  have "\<forall>a\<in>set (take k T). \<forall>b\<in>set (drop k T). a < b"
    using s unfolding sorted_wrt_append by blast
  moreover have "x \<in> set (take k T)"
    using x by (metis Un_iff append_take_drop_id set_append)
  ultimately show ?thesis by blast
qed

lemma card_lastn:
  assumes "sorted_wrt (<) (T :: int list)"
  shows "card (set (drop (length T - 10) T)) = min 10 (length T)"
proof -
  have "distinct T" using assms by (simp add: strict_sorted_iff)
  then have "distinct (drop (length T - 10) T)" by simp
  then have "card (set (drop (length T - 10) T)) = length (drop (length T - 10) T)"
    by (rule distinct_card)
  then show ?thesis by auto
qed

lemma retained_step:
  assumes inv: "retained_inv w L tbl T"
    and srt: "sorted_wrt (<) (T @ [ts])"
    and lo: "\<forall>t\<in>set (T @ [ts]). L \<le> t"
    and rows: "\<forall>r\<in>set rows. sel w ts r" "\<exists>r\<in>set rows. is_complete w r"
  shows "retained_inv w L (retention w (tbl @ rows)) (T @ [ts])"
proof -
  let ?T' = "T @ [ts]"
  let ?S = "set (drop (length T - 10) T)"
  let ?S' = "set (drop (length ?T' - 10) ?T')"
  let ?C1 = "complete_ts w (tbl @ rows)"
  let ?A1 = "all_ts w (tbl @ rows)"
  from inv have invC: "?S \<subseteq> complete_ts w tbl"
    and invA: "\<forall>a\<in>all_ts w tbl. a \<in> ?S \<or> (length T < 10 \<and> a < L)"
    by (simp_all add: retained_inv_def RETAINED_VERSIONS_NUM_def)
  have C1: "?C1 = insert ts (complete_ts w tbl)" by (rule complete_ts_append_version [OF rows])
  have A1: "?A1 = insert ts (all_ts w tbl)" by (rule all_ts_append_version [OF rows])
  have S'sub: "?S' \<subseteq> insert ts ?S" by (rule lastn_snoc)
  have tsS': "ts \<in> ?S'" by (rule lastn_has_last)
  have S'C1: "?S' \<subseteq> ?C1" using S'sub invC C1 by blast
  have cardS': "card ?S' = min 10 (length ?T')" by (rule card_lastn [OF srt])
  have S'T': "?S' \<subseteq> set ?T'" by (rule set_drop_subset)
  have loS': "\<forall>s\<in>?S'. L \<le> s" using lo S'T' by blast
  have ST': "?S \<subseteq> set ?T'" using set_drop_subset [of "length T - 10" T] by auto
  have below: "\<And>x. x \<in> set ?T' \<Longrightarrow> x \<notin> ?S' \<Longrightarrow> \<forall>s\<in>?S'. x < s"
    using below_lastn [OF srt] by blast
  have upper: "\<forall>x\<in>?C1 - ?S'. \<forall>s\<in>?S'. x < s"
  proof
    fix x
    assume x: "x \<in> ?C1 - ?S'"
    with tsS' C1 have "x \<in> complete_ts w tbl" by auto
    with complete_ts_subset_all have "x \<in> all_ts w tbl" by blast
    with invA have "x \<in> ?S \<or> (length T < 10 \<and> x < L)" by blast
    then show "\<forall>s\<in>?S'. x < s"
    proof
      assume "x \<in> ?S"
      with ST' have "x \<in> set ?T'" by blast
      with x below show ?thesis by blast
    next
      assume "length T < 10 \<and> x < L"
      with loS' show ?thesis by fastforce
    qed
  qed
  have short: "length ?T' \<le> 10 \<Longrightarrow> ?S \<subseteq> ?S'"
  proof -
    assume "length ?T' \<le> 10"
    then have "drop (length ?T' - 10) ?T' = ?T'" by simp
    then show "?S \<subseteq> ?S'" using ST' by simp
  qed
  note spec = retention_spec [of w "tbl @ rows"]
  show ?thesis
  proof (cases "card ?C1 < 10")
    case True
    with spec have ret: "retention w (tbl @ rows) = tbl @ rows"
      by (simp add: RETAINED_VERSIONS_NUM_def)
    have "card ?S' \<le> card ?C1"
      using S'C1 finite_complete_ts by (intro card_mono)
    with True cardS' have len: "length ?T' < 10" by simp
    then have sub: "?S \<subseteq> ?S'" using short by simp
    have "\<forall>a\<in>?A1. a \<in> ?S' \<or> (length ?T' < 10 \<and> a < L)"
    proof
      fix a
      assume "a \<in> ?A1"
      with A1 have "a = ts \<or> a \<in> all_ts w tbl" by auto
      then show "a \<in> ?S' \<or> (length ?T' < 10 \<and> a < L)"
      proof
        assume "a = ts"
        with tsS' show ?thesis by simp
      next
        assume "a \<in> all_ts w tbl"
        with invA have "a \<in> ?S \<or> (length T < 10 \<and> a < L)" by blast
        with sub len show ?thesis by blast
      qed
    qed
    with S'C1 show ?thesis
      unfolding retained_inv_def ret RETAINED_VERSIONS_NUM_def by blast
  next
    case False
    with spec obtain c where c: "c \<in> ?C1" "card {t \<in> ?C1. c < t} = 9"
      and ret: "retention w (tbl @ rows) = filter (\<lambda>r. \<not> (v_wikiId r = w \<and> v_tsMs r < c)) (tbl @ rows)"
      by (auto simp: RETAINED_VERSIONS_NUM_def)
    have small: "card ?S' \<le> 10" using cardS' by simp
    note top = top_segment [OF finite_complete_ts c S'C1 upper small]
    have Cr: "complete_ts w (retention w (tbl @ rows)) = {t \<in> ?C1. c \<le> t}"
      unfolding ret by (rule complete_ts_cut)
    have Ar: "all_ts w (retention w (tbl @ rows)) = {t \<in> ?A1. c \<le> t}"
      unfolding ret by (rule all_ts_cut)
    have part1: "?S' \<subseteq> complete_ts w (retention w (tbl @ rows))"
      unfolding Cr using S'C1 top(1) by blast
    have part2: "\<forall>a\<in>all_ts w (retention w (tbl @ rows)). a \<in> ?S' \<or> (length ?T' < 10 \<and> a < L)"
    proof
      fix a
      assume "a \<in> all_ts w (retention w (tbl @ rows))"
      with Ar have a: "a \<in> ?A1" "c \<le> a" by simp_all
      show "a \<in> ?S' \<or> (length ?T' < 10 \<and> a < L)"
      proof (cases "length ?T' < 10")
        case True
        then have sub: "?S \<subseteq> ?S'" using short by simp
        from a(1) A1 have "a = ts \<or> a \<in> all_ts w tbl" by auto
        then show ?thesis
        proof
          assume "a = ts"
          with tsS' show ?thesis by simp
        next
          assume "a \<in> all_ts w tbl"
          with invA have "a \<in> ?S \<or> (length T < 10 \<and> a < L)" by blast
          with sub True show ?thesis by blast
        qed
      next
        case False
        then have "card ?S' = 10" using cardS' by simp
        from top(2) [OF this] have cS': "c \<in> ?S'" .
        have "a \<in> ?S'"
        proof (rule ccontr)
          assume n: "a \<notin> ?S'"
          with tsS' have "a \<noteq> ts" by blast
          with a(1) A1 have "a \<in> all_ts w tbl" by auto
          with invA have "a \<in> ?S \<or> (length T < 10 \<and> a < L)" by blast
          then have "a < c"
          proof
            assume "a \<in> ?S"
            with ST' have "a \<in> set ?T'" by blast
            from below [OF this n] cS' show ?thesis by blast
          next
            assume "length T < 10 \<and> a < L"
            with loS' cS' show ?thesis by fastforce
          qed
          with a(2) show False by simp
        qed
        then show ?thesis by simp
      qed
    qed
    from part1 part2 show ?thesis
      unfolding retained_inv_def RETAINED_VERSIONS_NUM_def by blast
  qed
qed

lemma retained_inv_fresh:
  assumes inv: "retained_inv w L tbl T" and srt: "sorted_wrt (<) (T @ [ts])" and lo: "L \<le> ts"
  shows "fresh_ts w ts tbl"
proof -
  have "\<forall>r\<in>set tbl. v_wikiId r = w \<longrightarrow> v_tsMs r < ts"
  proof (intro ballI impI)
    fix r
    assume r: "r \<in> set tbl" "v_wikiId r = w"
    then have "v_tsMs r \<in> all_ts w tbl" by (auto simp: all_ts_def)
    with inv have "v_tsMs r \<in> set (drop (length T - RETAINED_VERSIONS_NUM) T) \<or> v_tsMs r < L"
      by (auto simp: retained_inv_def)
    then show "v_tsMs r < ts"
    proof
      assume "v_tsMs r \<in> set (drop (length T - RETAINED_VERSIONS_NUM) T)"
      then have "v_tsMs r \<in> set T" by (rule in_set_dropD)
      with srt show ?thesis by (simp add: sorted_wrt_append)
    next
      assume "v_tsMs r < L"
      with lo show ?thesis by simp
    qed
  qed
  then show ?thesis by (simp add: fresh_ts_iff)
qed

lemma run_upserts_inv:
  assumes "retained_inv w L (wiki_versions s) T"
    and "sorted_wrt (<) (T @ map ts_of us)"
    and "\<forall>t\<in>set (T @ map ts_of us). L \<le> t"
    and "list_all stores_version us"
  shows "fst (run_upserts s w us) = Inr ()
         \<and> retained_inv w L (wiki_versions (snd (run_upserts s w us))) (T @ map ts_of us)"
  using assms
proof (induction us arbitrary: s T)
  case Nil
  then show ?case by simp
next
  case (Cons u us)
  obtain evs hint ts where u: "u = (evs, hint, ts)" by (cases u)
  from Cons.prems(4) u obtain b where rd: "read_all evs = Inr b"
    and ne: "\<not> (takes_buffered hint \<and> b = [])"
    by (auto simp: stores_version_def split: sum.splits)
  have tsu: "ts_of u = ts" using u by (simp add: ts_of_def)
  from Cons.prems(2) have srt1: "sorted_wrt (<) (T @ [ts])"
    by (simp add: tsu sorted_wrt_append)
  from Cons.prems(3) have lo1: "\<forall>t\<in>set (T @ [ts]). L \<le> t" by (simp add: tsu)
  then have lots: "L \<le> ts" by simp
  have fr: "fresh_ts w ts (wiki_versions s)"
    by (rule retained_inv_fresh [OF Cons.prems(1) srt1 lots])
  let ?rows = "written_rows w ts evs hint"
  let ?s1 = "s\<lparr>fileSrc := (if takes_buffered hint then Some b else None),
               wiki_versions := retention w (wiki_versions s @ ?rows)\<rparr>"
  have up: "upsert s w evs hint ts = (Inr (), ?s1)" by (rule upsert_ok [OF rd fr])
  have sl: "\<forall>r\<in>set ?rows. sel w ts r" using written_rows_sel by blast
  have cp: "\<exists>r\<in>set ?rows. is_complete w r" by (rule written_rows_complete [OF rd ne])
  have "retained_inv w L (retention w (wiki_versions s @ ?rows)) (T @ [ts])"
    by (rule retained_step [OF Cons.prems(1) srt1 lo1 sl cp])
  then have inv1: "retained_inv w L (wiki_versions ?s1) (T @ [ts])" by simp
  have srt2: "sorted_wrt (<) ((T @ [ts]) @ map ts_of us)"
    using Cons.prems(2) by (simp add: tsu)
  have lo2: "\<forall>t\<in>set ((T @ [ts]) @ map ts_of us). L \<le> t"
    using Cons.prems(3) by (simp add: tsu)
  have ok2: "list_all stores_version us" using Cons.prems(4) by simp
  note ih = Cons.IH [OF inv1 srt2 lo2 ok2]
  have run: "run_upserts s w (u # us) = run_upserts ?s1 w us"
    unfolding u by (simp add: up)
  show ?case unfolding run using ih by (simp add: tsu)
qed

lemma ten_saves:
  assumes srt: "sorted_wrt (<) (map ts_of us)"
    and fr: "list_all (\<lambda>u. fresh_ts w (ts_of u) (wiki_versions s)) us"
    and ok: "list_all stores_version us"
  shows "fst (run_upserts s w us) = Inr ()"
    and "RETAINED_VERSIONS_NUM \<le> length us \<Longrightarrow>
         complete_ts w (wiki_versions (snd (run_upserts s w us)))
           = set (drop (length us - RETAINED_VERSIONS_NUM) (map ts_of us))
         \<and> all_ts w (wiki_versions (snd (run_upserts s w us)))
           = set (drop (length us - RETAINED_VERSIONS_NUM) (map ts_of us))
         \<and> card (complete_ts w (wiki_versions (snd (run_upserts s w us)))) = RETAINED_VERSIONS_NUM"
proof -
  show r: "fst (run_upserts s w us) = Inr ()"
    and "RETAINED_VERSIONS_NUM \<le> length us \<Longrightarrow>
         complete_ts w (wiki_versions (snd (run_upserts s w us)))
           = set (drop (length us - RETAINED_VERSIONS_NUM) (map ts_of us))
         \<and> all_ts w (wiki_versions (snd (run_upserts s w us)))
           = set (drop (length us - RETAINED_VERSIONS_NUM) (map ts_of us))
         \<and> card (complete_ts w (wiki_versions (snd (run_upserts s w us)))) = RETAINED_VERSIONS_NUM"
  proof -
    show "fst (run_upserts s w us) = Inr ()"
    proof (cases us)
      case Nil
      then show ?thesis by simp
    next
      case (Cons u0 rest)
      let ?L = "ts_of u0"
      have f0: "fresh_ts w ?L (wiki_versions s)" using fr Cons by simp
      have inv0: "retained_inv w ?L (wiki_versions s) []"
        using f0 by (auto simp: retained_inv_def all_ts_def fresh_ts_iff RETAINED_VERSIONS_NUM_def)
      have lo: "\<forall>t\<in>set ([] @ map ts_of us). ?L \<le> t"
        using srt Cons by (auto dest: less_imp_le)
      from run_upserts_inv [OF inv0 _ lo ok] srt show ?thesis by simp
    qed
  next
    assume ten: "RETAINED_VERSIONS_NUM \<le> length us"
    then obtain u0 rest where Cons: "us = u0 # rest"
      by (cases us) (simp_all add: RETAINED_VERSIONS_NUM_def)
    let ?L = "ts_of u0"
    let ?tbl = "wiki_versions (snd (run_upserts s w us))"
    let ?S = "set (drop (length us - RETAINED_VERSIONS_NUM) (map ts_of us))"
    have f0: "fresh_ts w ?L (wiki_versions s)" using fr Cons by simp
    have inv0: "retained_inv w ?L (wiki_versions s) []"
      using f0 by (auto simp: retained_inv_def all_ts_def fresh_ts_iff RETAINED_VERSIONS_NUM_def)
    have lo: "\<forall>t\<in>set ([] @ map ts_of us). ?L \<le> t"
      using srt Cons by (auto dest: less_imp_le)
    from run_upserts_inv [OF inv0 _ lo ok] srt
    have inv: "retained_inv w ?L ?tbl (map ts_of us)" by simp
    then have sub: "?S \<subseteq> complete_ts w ?tbl"
      and all: "\<forall>a\<in>all_ts w ?tbl. a \<in> ?S"
      using ten by (auto simp: retained_inv_def)
    have eqA: "all_ts w ?tbl = ?S"
      using sub all complete_ts_subset_all [of w ?tbl] by blast
    have eqC: "complete_ts w ?tbl = ?S"
      using sub all complete_ts_subset_all [of w ?tbl] by blast
    have "card ?S = min 10 (length (map ts_of us))"
      using card_lastn [OF srt] by (simp add: RETAINED_VERSIONS_NUM_def)
    then have "card ?S = RETAINED_VERSIONS_NUM"
      using ten by (simp add: RETAINED_VERSIONS_NUM_def)
    with eqA eqC show "complete_ts w ?tbl = ?S \<and> all_ts w ?tbl = ?S
         \<and> card (complete_ts w ?tbl) = RETAINED_VERSIONS_NUM" by simp
  qed
qed

lemma older_not_in_lastn:
  assumes srt: "sorted_wrt (<) (T :: int list)" and x: "x \<in> set (take k T)"
  shows "x \<notin> set (drop k T)"
proof
  assume d: "x \<in> set (drop k T)"
  from srt have "sorted_wrt (<) (take k T @ drop k T)" by (simp only: append_take_drop_id)
  then have "\<forall>a\<in>set (take k T). \<forall>b\<in>set (drop k T). a < b"
    unfolding sorted_wrt_append by blast
  with x d have "x < x" by blast
  then show False by simp
qed

lemma upsert_runs_retention:
  assumes "fresh_ts w ts (wiki_versions s)" "stores_version (evs, hint, ts)"
  shows "wiki_versions (snd (upsert s w evs hint ts))
           = retention w (wiki_versions s @ written_rows w ts evs hint)"
proof -
  from assms(2) obtain b where "read_all evs = Inr b"
    by (auto simp: stores_version_def split: sum.splits)
  from upsert_ok [OF this assms(1), of hint] show ?thesis by simp
qed

lemma example_saves_ts: "map ts_of example_saves = map (\<lambda>k. 2000 + int k) [0..<15]"
  by (simp add: example_saves_def ts_of_def comp_def)

lemma example_saves_sorted: "sorted_wrt (<) (map ts_of example_saves)"
  unfolding example_saves_ts by (simp add: sorted_wrt_map)

lemma example_saves_fresh:
  "list_all (\<lambda>u. fresh_ts ''w1'' (ts_of u) (wiki_versions example_created)) example_saves"
  by (simp add: example_saves_def list_all_iff ts_of_def example_created_eq fresh_ts_def)

lemma example_saves_ok: "list_all stores_version example_saves"
  by (simp add: example_saves_def list_all_iff stores_version_def takes_buffered_def)

text \<open>
  Claim C3. The retention step that ends every successful upsert deletes nothing when
  the document has fewer than 10 distinct complete-version timestamps; otherwise it
  deletes exactly the rows of the document that are strictly older than the
  10th-most-recent complete-version timestamp (the one with nine complete timestamps
  above it). So after successive successful upserts, ten or more, each stamped later
  than the one before and than the rows stored at the start, and each storing a
  version, exactly the 10 latest versions remain, complete, and no row of an older
  version of the document is left: after 15 upserts the 5 oldest are gone.
\<close>

theorem retention_after_upserts:
  assumes srt: "sorted_wrt (<) (map ts_of us)"
    and fr: "list_all (\<lambda>u. fresh_ts w (ts_of u) (wiki_versions s)) us"
    and ok: "list_all stores_version us"
  shows "(card (complete_ts w tbl) < RETAINED_VERSIONS_NUM \<longrightarrow> retention w tbl = tbl)
         \<and> (RETAINED_VERSIONS_NUM \<le> card (complete_ts w tbl) \<longrightarrow>
              (\<exists>c\<in>complete_ts w tbl.
                 card {t \<in> complete_ts w tbl. c < t} = RETAINED_VERSIONS_NUM - 1
                 \<and> retention w tbl = filter (\<lambda>r. \<not> (v_wikiId r = w \<and> v_tsMs r < c)) tbl))
         \<and> (fresh_ts w ts (wiki_versions s) \<and> stores_version (evs, hint, ts) \<longrightarrow>
              wiki_versions (snd (upsert s w evs hint ts))
                = retention w (wiki_versions s @ written_rows w ts evs hint))
         \<and> fst (run_upserts s w us) = Inr ()
         \<and> (RETAINED_VERSIONS_NUM \<le> length us \<longrightarrow>
              complete_ts w (wiki_versions (snd (run_upserts s w us)))
                = set (drop (length us - RETAINED_VERSIONS_NUM) (map ts_of us))
              \<and> all_ts w (wiki_versions (snd (run_upserts s w us)))
                = set (drop (length us - RETAINED_VERSIONS_NUM) (map ts_of us))
              \<and> card (complete_ts w (wiki_versions (snd (run_upserts s w us))))
                = RETAINED_VERSIONS_NUM
              \<and> (\<forall>t\<in>set (take (length us - RETAINED_VERSIONS_NUM) (map ts_of us)).
                    t \<notin> all_ts w (wiki_versions (snd (run_upserts s w us)))))"
proof -
  note spec = retention_spec [of w tbl]
  note ten = ten_saves [OF srt fr ok]
  have old: "RETAINED_VERSIONS_NUM \<le> length us \<longrightarrow>
               (\<forall>t\<in>set (take (length us - RETAINED_VERSIONS_NUM) (map ts_of us)).
                    t \<notin> all_ts w (wiki_versions (snd (run_upserts s w us))))"
  proof (intro impI ballI)
    fix t
    assume l: "RETAINED_VERSIONS_NUM \<le> length us"
      and t: "t \<in> set (take (length us - RETAINED_VERSIONS_NUM) (map ts_of us))"
    from older_not_in_lastn [OF srt t] ten(2) [OF l]
    show "t \<notin> all_ts w (wiki_versions (snd (run_upserts s w us)))" by simp
  qed
  have one: "fresh_ts w ts (wiki_versions s) \<and> stores_version (evs, hint, ts) \<longrightarrow>
              wiki_versions (snd (upsert s w evs hint ts))
                = retention w (wiki_versions s @ written_rows w ts evs hint)"
    using upsert_runs_retention by blast
  from spec one ten old show ?thesis by blast
qed

theorem retention_after_upserts_witness:
  "sorted_wrt (<) (map ts_of example_saves)
   \<and> list_all (\<lambda>u. fresh_ts ''w1'' (ts_of u) (wiki_versions example_created)) example_saves
   \<and> list_all stores_version example_saves
   \<and> length example_saves = 15
   \<and> fst (run_upserts example_created ''w1'' example_saves) = Inr ()
   \<and> complete_ts ''w1'' (wiki_versions (snd (run_upserts example_created ''w1'' example_saves)))
       = set (map (\<lambda>k. 2000 + int k) [5..<15])
   \<and> all_ts ''w1'' (wiki_versions (snd (run_upserts example_created ''w1'' example_saves)))
       = set (map (\<lambda>k. 2000 + int k) [5..<15])
   \<and> card (complete_ts ''w1'' (wiki_versions (snd (run_upserts example_created ''w1'' example_saves))))
       = 10"
proof -
  have len: "length example_saves = 15" by (simp add: example_saves_def)
  have dr: "drop (length example_saves - RETAINED_VERSIONS_NUM) (map ts_of example_saves)
              = map (\<lambda>k. 2000 + int k) [5..<15]"
    unfolding example_saves_ts len RETAINED_VERSIONS_NUM_def by (simp add: drop_map)
  have ge: "RETAINED_VERSIONS_NUM \<le> length example_saves"
    by (simp add: len RETAINED_VERSIONS_NUM_def)
  from retention_after_upserts [OF example_saves_sorted example_saves_fresh example_saves_ok]
    ge dr
  show ?thesis
    using example_saves_sorted example_saves_fresh example_saves_ok len
    by (simp add: RETAINED_VERSIONS_NUM_def)
qed

section \<open>Every chunk row is bounded\<close>

lemma chunksInfo_mem: "chunksInfo w tbl = Inr info \<Longrightarrow> info \<in> set tbl"
proof -
  assume i: "chunksInfo w tbl = Inr info"
  then have "complete_rows w tbl \<noteq> []" by (auto simp: chunksInfo_def)
  from chunksInfo_latest [OF this] i have "info \<in> set (complete_rows w tbl)" by auto
  then show ?thesis by (simp add: complete_rows_def)
qed

lemma streaming_terminal:
  assumes fr: "fresh_ts w ts (wiki_versions s)" and rd: "read_all evs = Inr b"
    and st: "\<not> takes_buffered hint"
  shows "(\<exists>r\<in>set (wiki_versions (snd (upsert s w evs hint ts))). is_complete w r \<and> v_tsMs r = ts)
         \<and> (\<forall>r\<in>set (wiki_versions (snd (upsert s w evs hint ts))).
               is_complete w r \<and> v_tsMs r = ts \<longrightarrow> v_src r = [])"
proof -
  let ?rows = "written_rows w ts evs hint"
  let ?tbl = "retention w (wiki_versions s @ ?rows)"
  have tb: "wiki_versions (snd (upsert s w evs hint ts)) = ?tbl"
    using upsert_ok [OF rd fr, of hint] by simp
  have ne: "\<not> (takes_buffered hint \<and> b = [])" using st by simp
  have "\<exists>info. chunksInfo w ?tbl = Inr info \<and> v_tsMs info = ts \<and> info \<in> set ?rows
          \<and> is_complete w info \<and> chunksCursor w ts ?tbl = map v_src ?rows"
    by (rule read_after_append [OF fr])
       (use written_rows_sel written_rows_sorted written_rows_complete [OF rd ne] in blast)+
  then obtain info where info: "chunksInfo w ?tbl = Inr info" "v_tsMs info = ts" "is_complete w info"
    by blast
  from chunksInfo_mem [OF info(1)] info(2,3)
  have ex: "\<exists>r\<in>set ?tbl. is_complete w r \<and> v_tsMs r = ts" by blast
  have all: "\<forall>r\<in>set ?tbl. is_complete w r \<and> v_tsMs r = ts \<longrightarrow> v_src r = []"
  proof (intro ballI impI)
    fix r
    assume r: "r \<in> set ?tbl" and c: "is_complete w r \<and> v_tsMs r = ts"
    from r retention_subset have "r \<in> set (wiki_versions s @ ?rows)" by blast
    moreover have "r \<notin> set (wiki_versions s)"
      using fr c by (auto simp: fresh_ts_iff is_complete_def)
    ultimately have "r \<in> set ?rows" by simp
    then consider "r \<in> set (numbered_rows w ts 0 None (snd (flushed evs [] 0)))"
      | "r = \<lparr>v_wikiId = w, v_tsMs = ts, v_src = [],
               v_chunkIdx = length (snd (flushed evs [] 0)) + 1,
               v_chunksTotal = Some (length (snd (flushed evs [] 0)) + 1)\<rparr>"
      using st by (auto simp: written_rows_def Let_def)
    then show "v_src r = []"
    proof cases
      case 1
      from numbered_rows_idx [OF this] c show ?thesis by (simp add: is_complete_def)
    next
      case 2
      have "v_src \<lparr>v_wikiId = w, v_tsMs = ts, v_src = [],
               v_chunkIdx = length (snd (flushed evs [] 0)) + 1,
               v_chunksTotal = Some (length (snd (flushed evs [] 0)) + 1)\<rparr> = []" by simp
      with 2 show ?thesis by simp
    qed
  qed
  from ex all show ?thesis unfolding tb by blast
qed

text \<open>
  Claim C7. Every chunk row that \<open>create\<close> or \<open>upsert\<close> (buffered or streaming) ever
  writes holds at most 1,500,000 bytes: after any sequence of calls on a fresh actor, in
  which every streamed source keeps the promise of \<open>readAtLeast\<close>, no row of
  \<open>wiki_versions\<close> is longer than \<open>CHUNK_SIZE_MAX\<close>; \<open>chunkify\<close> splits any buffer into
  \<open>ceil(length / 1,500,000)\<close> slices of at most 1,500,000 bytes each whose concatenation
  is the buffer; and the terminal row that a streaming upsert writes under its (fresh)
  timestamp is there and carries a zero-length payload.
\<close>

theorem chunk_rows_bounded:
  "((\<forall>x\<in>set ops. op_ok x) \<longrightarrow>
      (\<forall>r\<in>set (wiki_versions (run_ops ops)). length (v_src r) \<le> CHUNK_SIZE_MAX))
   \<and> (\<exists>cs. chunkify bb CHUNK_SIZE_MAX = Inr cs
         \<and> length cs = ceil_div (length bb) CHUNK_SIZE_MAX
         \<and> (\<forall>c\<in>set cs. length c \<le> CHUNK_SIZE_MAX) \<and> concat cs = bb)
   \<and> (fresh_ts w ts (wiki_versions s) \<and> read_all evs = Inr b \<and> \<not> takes_buffered hint \<longrightarrow>
        (\<exists>r\<in>set (wiki_versions (snd (upsert s w evs hint ts))). is_complete w r \<and> v_tsMs r = ts)
        \<and> (\<forall>r\<in>set (wiki_versions (snd (upsert s w evs hint ts))).
              is_complete w r \<and> v_tsMs r = ts \<longrightarrow> v_src r = []))"
  using bounded_foldl [of new_WikiDO ops] chunkify_max [of bb]
    streaming_terminal [of w ts s evs b hint]
  by (simp add: run_ops_def bounded_rows_def new_WikiDO_def)

theorem chunk_rows_bounded_witness:
  "list_all op_ok example_ops
   \<and> bounded_rows (wiki_versions (run_ops example_ops))
   \<and> (\<exists>cs. chunkify [1, 2, 3] CHUNK_SIZE_MAX = Inr cs \<and> length cs = 1 \<and> concat cs = [1, 2, 3])
   \<and> fresh_ts ''w1'' 2000 (wiki_versions example_created)
   \<and> read_all [Data [4, 5]] = Inr [4, 5] \<and> takes_buffered None = False
   \<and> list_ex (\<lambda>r. is_complete ''w1'' r \<and> v_tsMs r = 2000)
        (wiki_versions (snd (upsert example_created ''w1'' [Data [4, 5]] None 2000)))
   \<and> list_all (\<lambda>r. is_complete ''w1'' r \<and> v_tsMs r = 2000 \<longrightarrow> v_src r = [])
        (wiki_versions (snd (upsert example_created ''w1'' [Data [4, 5]] None 2000)))"
proof -
  have ok: "\<forall>x\<in>set example_ops. op_ok x"
    by (simp add: example_ops_def CHUNK_SIZE_MAX_def)
  have c: "ceil_div (length [1::byte, 2, 3]) CHUNK_SIZE_MAX = 1"
    by (simp add: ceil_div_def CHUNK_SIZE_MAX_def)
  have rd: "read_all [Data [4, 5]] = Inr [4, 5]" by simp
  have tb: "takes_buffered None = False" by (simp add: takes_buffered_def)
  show ?thesis
    using ok c rd tb example_created_fresh
      chunk_rows_bounded [of example_ops "[1, 2, 3]" "''w1''" 2000 example_created "[Data [4, 5]]"
        "[4, 5]" None]
    by (auto simp: list_all_iff list_ex_iff bounded_rows_def)
qed

end
